theory Spec2Isabelle
  imports Main "HOL-Library.Multiset" "HOL-Library.Char_ord" "HOL-Library.List_Lexorder"
    "HOL-Library.Option_ord"
begin

section \<open>Text streams of the shell scripts\<close>

text \<open>
  Strings are byte lists. The shell scripts pass strings through pipelines of
  \<^verbatim>\<open>echo\<close>, \<^verbatim>\<open>tr\<close>, \<^verbatim>\<open>sed\<close> and \<^verbatim>\<open>grep\<close>; a stream is the byte
  string written to a pipe. \<^verbatim>\<open>sed\<close> and \<^verbatim>\<open>grep\<close> work line by line, and a
  command substitution \<^verbatim>\<open>$(...)\<close> removes every trailing newline of what it
  captures. Character classes are the ASCII ones (the C locale).
\<close>

definition nl :: char where
  "nl = CHR 0x0A"

definition hyphen :: char where
  "hyphen = CHR ''-''"

definition dot :: char where
  "dot = CHR ''.''"

fun split_nl :: "string \<Rightarrow> string list" where
  "split_nl [] = [Nil]"
| "split_nl (c # cs) =
     (if c = nl then [] # split_nl cs
      else (case split_nl cs of [] \<Rightarrow> [c # Nil] | l # ls \<Rightarrow> (c # l) # ls))"

text \<open>The lines of a stream: a final newline ends the last line, it does not start another.\<close>

definition lines_of :: "string \<Rightarrow> string list" where
  "lines_of s = (let ps = split_nl s in if last ps = [] then butlast ps else ps)"

text \<open>
  The builtin \<^verbatim>\<open>echo "$x"\<close> of bash: an argument that is a hyphen followed only by
  the letters n, e, E is taken as options and not printed; with n among them
  not even the newline is printed.
\<close>

definition is_echo_option :: "string \<Rightarrow> bool" where
  "is_echo_option s =
     (case s of [] \<Rightarrow> False
      | c # cs \<Rightarrow> c = hyphen \<and> cs \<noteq> [] \<and> (\<forall>x \<in> set cs. x \<in> set ''neE''))"

definition echo :: "string \<Rightarrow> string" where
  "echo s =
     (if is_echo_option s then (if CHR ''n'' \<in> set s then [] else [nl])
      else s @ [nl])"

definition cmd_subst :: "string \<Rightarrow> string" where
  "cmd_subst out = rev (dropWhile (\<lambda>c. c = nl) (rev out))"

text \<open>One \<^verbatim>\<open>sed\<close> process: the script \<open>f\<close> is applied to every line.\<close>

definition sed :: "(string \<Rightarrow> string) \<Rightarrow> string \<Rightarrow> string" where
  "sed f inp = concat (map (\<lambda>l. f l @ [nl]) (lines_of inp))"

definition is_upper :: "char \<Rightarrow> bool" where
  "is_upper c = (CHR ''A'' \<le> c \<and> c \<le> CHR ''Z'')"

definition is_lower :: "char \<Rightarrow> bool" where
  "is_lower c = (CHR ''a'' \<le> c \<and> c \<le> CHR ''z'')"

definition is_digit :: "char \<Rightarrow> bool" where
  "is_digit c = (CHR ''0'' \<le> c \<and> c \<le> CHR ''9'')"

definition to_lower :: "char \<Rightarrow> char" where
  "to_lower c = (if is_upper c then char_of (of_char c + (32::nat)) else c)"

text \<open>\<^verbatim>\<open>tr '[:upper:]' '[:lower:]'\<close> translates byte by byte.\<close>

definition tr_lower :: "string \<Rightarrow> string" where
  "tr_lower inp = map to_lower inp"

text \<open>\<^verbatim>\<open>s/[^a-z0-9-]/-/g\<close>\<close>

definition slug_char :: "char \<Rightarrow> bool" where
  "slug_char c = (is_lower c \<or> is_digit c \<or> c = hyphen)"

definition hyphenate :: "string \<Rightarrow> string" where
  "hyphenate l = map (\<lambda>c. if slug_char c then c else hyphen) l"

text \<open>\<^verbatim>\<open>s/--*/-/g\<close> and the JavaScript \<^verbatim>\<open>replace(/-+/g, "-")\<close>: every run of hyphens becomes one.\<close>

fun collapse :: "string \<Rightarrow> string" where
  "collapse [] = []"
| "collapse [c] = [c]"
| "collapse (c # d # cs) =
     (if c = hyphen \<and> d = hyphen then collapse (d # cs) else c # collapse (d # cs))"

text \<open>
  \<^verbatim>\<open>s/^-//;s/-$//\<close> and the JavaScript \<^verbatim>\<open>replace(/^-|-$/g, "")\<close>: one hyphen
  is removed at the start, then one at the end of what is left.
\<close>

definition trim_lead :: "string \<Rightarrow> string" where
  "trim_lead l = (case l of [] \<Rightarrow> [] | c # cs \<Rightarrow> if c = hyphen then cs else l)"

definition trim_trail :: "string \<Rightarrow> string" where
  "trim_trail l = (if l \<noteq> [] \<and> last l = hyphen then butlast l else l)"

definition trim_hyphens :: "string \<Rightarrow> string" where
  "trim_hyphens l = trim_trail (trim_lead l)"

text \<open>The parameter expansions \<^verbatim>\<open>${x%.*}\<close> and \<^verbatim>\<open>${x##*.}\<close>.\<close>

definition strip_last_ext :: "string \<Rightarrow> string" where
  "strip_last_ext x =
     (if dot \<in> set x then rev (tl (dropWhile (\<lambda>c. c \<noteq> dot) (rev x))) else x)"

definition last_ext :: "string \<Rightarrow> string" where
  "last_ext x = rev (takeWhile (\<lambda>c. c \<noteq> dot) (rev x))"

section \<open>The slug of the shell pipeline and of the browser\<close>

text \<open>
  process-photos.sh, line 249:
  \<^verbatim>\<open>slug=$(echo "${filename%.*}" | tr '[:upper:]' '[:lower:]' | sed 's/[^a-z0-9-]/-/g' | sed 's/--*/-/g' | sed 's/^-//;s/-$//')\<close>
\<close>

definition slugify_pipeline :: "string \<Rightarrow> string" where
  "slugify_pipeline x =
     cmd_subst (sed trim_hyphens (sed collapse (sed hyphenate (tr_lower (echo x)))))"

definition shell_slug :: "string \<Rightarrow> string" where
  "shell_slug filename = slugify_pipeline (strip_last_ext filename)"

text \<open>
  lightbox.js, \<^verbatim>\<open>slugFor\<close>: \<^verbatim>\<open>replace(/\.[^.]+$/, "")\<close> removes the last dot and what
  follows it when at least one character follows it; the regular expressions
  see a newline as any other character. On ASCII text \<^verbatim>\<open>toLowerCase\<close> is
  \<open>to_lower\<close> on every character; the statements about \<^verbatim>\<open>slugFor\<close> are
  for ASCII names.
\<close>

definition ascii :: "string \<Rightarrow> bool" where
  "ascii s = (\<forall>c\<in>set s. of_char c < (128::nat))"

definition js_strip_ext :: "string \<Rightarrow> string" where
  "js_strip_ext x =
     (if dot \<in> set x \<and> last_ext x \<noteq> [] then strip_last_ext x else x)"

definition js_fallback_slug :: "string \<Rightarrow> string" where
  "js_fallback_slug filename =
     trim_hyphens (collapse (hyphenate (map to_lower (js_strip_ext filename))))"

section \<open>The lightbox (lightbox.js)\<close>

text \<open>
  A photo object as the lightbox reads it. A field that may be absent is an
  option; \<open>p_palBaseUrl\<close> is the \<^verbatim>\<open>_palBaseUrl\<close> that the pal feed attaches
  (absent or empty for a local photo).
\<close>

record photo =
  p_filename :: string
  p_slug :: "string option"
  p_web :: string
  p_caption :: "string option"
  p_palBaseUrl :: "string option"

text \<open>JavaScript truthiness of an optional string: present and not empty.\<close>

definition truthy :: "string option \<Rightarrow> bool" where
  "truthy v = (case v of None \<Rightarrow> False | Some s \<Rightarrow> s \<noteq> [])"

definition or_empty :: "string option \<Rightarrow> string" where
  "or_empty v = (case v of None \<Rightarrow> [] | Some s \<Rightarrow> s)"

definition slugFor :: "photo \<Rightarrow> string" where
  "slugFor p =
     (case p_slug p of
        None \<Rightarrow> js_fallback_slug (p_filename p)
      | Some s \<Rightarrow> if s \<noteq> [] then s else js_fallback_slug (p_filename p))"

text \<open>\<^verbatim>\<open>Array.prototype.findIndex\<close>: the first index whose element passes, or -1.\<close>

fun findIndex :: "('a \<Rightarrow> bool) \<Rightarrow> 'a list \<Rightarrow> int" where
  "findIndex P [] = - 1"
| "findIndex P (x # xs) =
     (if P x then 0 else (let r = findIndex P xs in if r = - 1 then - 1 else r + 1))"

definition indexBySlug :: "photo list \<Rightarrow> string \<Rightarrow> int" where
  "indexBySlug ps slug = findIndex (\<lambda>p. slugFor p = slug) ps"

text \<open>
  The module state (\<^verbatim>\<open>_photos\<close>, \<^verbatim>\<open>_currentIndex\<close>, \<^verbatim>\<open>_suppressHashChange\<close>)
  together with what \<^verbatim>\<open>show\<close> writes: the hash of the address bar, the
  \<^verbatim>\<open>lightboxPhoto\<close> element, the caption, the two navigation buttons, the
  images requested by \<^verbatim>\<open>preload\<close> and whether the modal is shown. The avatar,
  user name, date and metadata lines that \<^verbatim>\<open>show\<close> also fills in are not
  part of the state.
\<close>

record lightbox =
  lb_photos :: "photo list"
  currentIndex :: int
  suppressHashChange :: bool
  location_hash :: string
  photo_src :: string
  photo_alt :: string
  photo_crossorigin :: bool
  caption_text :: string
  prev_visible :: bool
  next_visible :: bool
  preloaded :: "string list"
  modal_shown :: bool

definition WEB_DIR :: string where
  "WEB_DIR = ''photos/web/''"

definition isLocal :: "photo \<Rightarrow> bool" where
  "isLocal p = (\<not> truthy (p_palBaseUrl p))"

definition image_url :: "photo \<Rightarrow> string" where
  "image_url p =
     (if isLocal p then WEB_DIR @ p_web p
      else or_empty (p_palBaseUrl p) @ ''photos/web/'' @ p_web p)"

definition setHash :: "string \<Rightarrow> lightbox \<Rightarrow> lightbox" where
  "setHash slug st = st\<lparr>suppressHashChange := True, location_hash := ''#photo='' @ slug\<rparr>"

definition clearHash :: "lightbox \<Rightarrow> lightbox" where
  "clearHash st = st\<lparr>suppressHashChange := True, location_hash := []\<rparr>"

definition in_range :: "int \<Rightarrow> lightbox \<Rightarrow> bool" where
  "in_range i st = (0 \<le> i \<and> i < int (length (lb_photos st)))"

definition preload :: "int \<Rightarrow> lightbox \<Rightarrow> lightbox" where
  "preload i st =
     (if i < 0 \<or> i \<ge> int (length (lb_photos st)) then st
      else st\<lparr>preloaded := preloaded st @ [image_url (lb_photos st ! nat i)]\<rparr>)"

definition show_photo :: "int \<Rightarrow> lightbox \<Rightarrow> lightbox" where
  "show_photo i st =
     (if i < 0 \<or> i \<ge> int (length (lb_photos st)) then st
      else
        let p = lb_photos st ! nat i;
            st1 = st\<lparr>currentIndex := i,
                     photo_src := image_url p,
                     photo_alt := or_empty (p_caption p),
                     photo_crossorigin := (\<not> isLocal p),
                     caption_text := or_empty (p_caption p),
                     prev_visible := (i > 0),
                     next_visible := (i < int (length (lb_photos st)) - 1)\<rparr>;
            st2 = (if isLocal p then setHash (slugFor p) st1 else clearHash st1)
        in preload (i + 1) (preload (i - 1) st2))"

definition open_photo :: "int \<Rightarrow> lightbox \<Rightarrow> lightbox" where
  "open_photo i st = (show_photo i st)\<lparr>modal_shown := True\<rparr>"

definition starts_with :: "string \<Rightarrow> string \<Rightarrow> bool" where
  "starts_with s pre = (take (length pre) s = pre)"

definition checkHash :: "lightbox \<Rightarrow> lightbox" where
  "checkHash st =
     (if \<not> starts_with (location_hash st) ''#photo='' then st
      else
        let slug = drop (length ''#photo='') (location_hash st);
            idx = indexBySlug (lb_photos st) slug
        in if idx \<noteq> - 1 then open_photo idx st else st)"

text \<open>The click handlers of \<^verbatim>\<open>lightboxPrev\<close> and \<^verbatim>\<open>lightboxNext\<close>.\<close>

definition lightboxPrev :: "lightbox \<Rightarrow> lightbox" where
  "lightboxPrev st = show_photo (currentIndex st - 1) st"

definition lightboxNext :: "lightbox \<Rightarrow> lightbox" where
  "lightboxNext st = show_photo (currentIndex st + 1) st"

text \<open>
  \<^verbatim>\<open>init\<close> on page load: the module starts with the given photos and index 0,
  nothing displayed, and ends with \<^verbatim>\<open>checkHash\<close> on the hash of the URL.
\<close>

definition init :: "photo list \<Rightarrow> string \<Rightarrow> lightbox" where
  "init ps url_hash =
     checkHash \<lparr>lb_photos = ps, currentIndex = 0, suppressHashChange = False,
       location_hash = url_hash, photo_src = [], photo_alt = [],
       photo_crossorigin = False, caption_text = [], prev_visible = True,
       next_visible = True, preloaded = [], modal_shown = False\<rparr>"

section \<open>Decimal numbers in strings\<close>

text \<open>
  Both the shell (\<^verbatim>\<open>${counter}\<close>) and JavaScript (\<^verbatim>\<open>id + "-" + counter\<close>) write
  a counter in decimal.
\<close>

definition digit_char :: "nat \<Rightarrow> char" where
  "digit_char d = char_of (48 + d)"

fun dec :: "nat \<Rightarrow> string" where
  "dec n = (if n < 10 then [digit_char n] else dec (n div 10) @ [digit_char (n mod 10)])"

declare dec.simps [simp del]

definition digit_val :: "char \<Rightarrow> nat" where
  "digit_val c = of_char c - 48"

definition undec :: "string \<Rightarrow> nat" where
  "undec s = foldl (\<lambda>a c. 10 * a + digit_val c) 0 s"

lemma digit_val_digit_char: "d < 10 \<Longrightarrow> digit_val (digit_char d) = d"
  by (simp add: digit_val_def digit_char_def)

lemma undec_dec: "undec (dec n) = n"
proof (induction n rule: dec.induct)
  case (1 n)
  show ?case
  proof (cases "n < 10")
    case True
    then show ?thesis by (simp add: dec.simps [of n] undec_def digit_val_digit_char)
  next
    case False
    with 1 have "undec (dec (n div 10)) = n div 10" by simp
    with False show ?thesis
      by (simp add: dec.simps [of n] undec_def digit_val_digit_char)
  qed
qed

lemma dec_inj: "dec m = dec n \<Longrightarrow> m = n"
  by (metis undec_dec)

text \<open>
  Only finitely many counters give a name that is already taken, and each
  taken name that a counting loop passes leaves fewer of them ahead. This is
  what makes the two counting loops below terminate.
\<close>

definition taken_from :: "string \<Rightarrow> string \<Rightarrow> string list \<Rightarrow> nat \<Rightarrow> nat set" where
  "taken_from pre post names c = {k. c \<le> k \<and> pre @ dec k @ post \<in> set names}"

lemma finite_taken_from: "finite (taken_from pre post names c)"
proof -
  have "inj (\<lambda>k. pre @ dec k @ post)"
    by (auto simp add: inj_def dest: dec_inj)
  then have "finite ((\<lambda>k. pre @ dec k @ post) -` set names)"
    by (simp add: finite_vimageI)
  then show ?thesis by (simp add: vimage_def taken_from_def)
qed

lemma taken_from_Suc_le:
  "card (taken_from pre post names (Suc c)) \<le> card (taken_from pre post names c)"
proof -
  have "taken_from pre post names (Suc c) \<subseteq> taken_from pre post names c"
    by (auto simp add: taken_from_def)
  then show ?thesis by (simp add: card_mono finite_taken_from)
qed

lemma taken_from_Suc_less:
  assumes "pre @ dec c @ post \<in> set names"
  shows "card (taken_from pre post names (Suc c)) < card (taken_from pre post names c)"
proof -
  have "taken_from pre post names c = insert c (taken_from pre post names (Suc c))"
    using assms by (auto simp add: taken_from_def le_Suc_eq)
  moreover have "c \<notin> taken_from pre post names (Suc c)"
    by (simp add: taken_from_def)
  ultimately show ?thesis by (simp add: finite_taken_from)
qed

section \<open>The admin panel: creating an album (admin.js)\<close>

record album =
  a_id :: string
  a_title :: string
  a_description :: string
  a_cover :: string
  a_photos :: "string list"

definition is_alnum_lower :: "char \<Rightarrow> bool" where
  "is_alnum_lower c = (is_lower c \<or> is_digit c)"

text \<open>\<^verbatim>\<open>replace(/[^a-z0-9]+/g, "-")\<close>: every maximal run of other characters becomes one hyphen.\<close>

fun squeeze_other :: "string \<Rightarrow> string" where
  "squeeze_other [] = []"
| "squeeze_other [c] = [if is_alnum_lower c then c else hyphen]"
| "squeeze_other (c # d # cs) =
     (if is_alnum_lower c then c # squeeze_other (d # cs)
      else if is_alnum_lower d then hyphen # squeeze_other (d # cs)
      else squeeze_other (d # cs))"

definition slugify :: "string \<Rightarrow> string" where
  "slugify text = trim_hyphens (collapse (squeeze_other (map to_lower text)))"

text \<open>
  The loop of \<^verbatim>\<open>saveAlbum\<close>:
  \<^verbatim>\<open>while (albums.some((a) => a.id === uniqueId)) { uniqueId = id + "-" + counter++; }\<close>
\<close>

function unique_id_loop :: "string list \<Rightarrow> string \<Rightarrow> string \<Rightarrow> nat \<Rightarrow> string" where
  "unique_id_loop ids ident uniqueId counter =
     (if uniqueId \<in> set ids
      then unique_id_loop ids ident (ident @ ''-'' @ dec counter) (counter + 1)
      else uniqueId)"
  by pat_completeness auto
termination
proof (relation "measure (\<lambda>(ids, ident, u, c).
    card (taken_from (ident @ ''-'') [] ids c) + (if u \<in> set ids then 1 else 0))")
  show "wf (measure (\<lambda>(ids, ident, u, c).
    card (taken_from (ident @ ''-'') [] ids c) + (if u \<in> set ids then 1 else 0)))"
    by simp
next
  fix ids :: "string list" and ident uniqueId :: string and counter :: nat
  assume "uniqueId \<in> set ids"
  moreover have "card (taken_from (ident @ ''-'') [] ids (Suc counter))
      + (if ident @ ''-'' @ dec counter \<in> set ids then 1 else 0)
      \<le> card (taken_from (ident @ ''-'') [] ids counter)"
    using taken_from_Suc_le [of "ident @ ''-''" "[]" ids counter]
      taken_from_Suc_less [of "ident @ ''-''" counter "[]" ids]
    by auto
  ultimately
  show "((ids, ident, ident @ ''-'' @ dec counter, counter + 1), (ids, ident, uniqueId, counter))
    \<in> measure (\<lambda>(ids, ident, u, c).
      card (taken_from (ident @ ''-'') [] ids c) + (if u \<in> set ids then 1 else 0))"
    by simp
qed

declare unique_id_loop.simps [simp del]

text \<open>
  The state that \<^verbatim>\<open>saveAlbum\<close> reads and writes, and the form it reads: the
  title and description already trimmed, the selected photos in the order of
  \<^verbatim>\<open>Array.from(_selectedPhotos)\<close>, the value of the cover select, and the clock
  \<^verbatim>\<open>Date.now()\<close>.
\<close>

datatype toast_message = No_toast | Title_required | Album_updated | Album_created

record admin =
  albums :: "album list"
  editingAlbumIndex :: int
  selectedPhotos :: "string list"
  toast :: toast_message

record album_form =
  f_title :: string
  f_description :: string
  f_cover :: string
  f_now :: nat

text \<open>
  \<open>None\<close> is the \<^verbatim>\<open>TypeError\<close> of writing to \<^verbatim>\<open>albums[_editingAlbumIndex]\<close> when
  there is no such album. After saving, \<^verbatim>\<open>resetAlbumForm\<close> clears the editing
  index and the selection.
\<close>

definition album_ident :: "album_form \<Rightarrow> string" where
  "album_ident form =
     (if slugify (f_title form) \<noteq> [] then slugify (f_title form)
      else ''album-'' @ dec (f_now form))"

definition new_album_id :: "album list \<Rightarrow> album_form \<Rightarrow> string" where
  "new_album_id als form =
     unique_id_loop (map a_id als) (album_ident form) (album_ident form) 2"

definition saveAlbum :: "album_form \<Rightarrow> admin \<Rightarrow> admin option" where
  "saveAlbum form st =
     (if f_title form = [] then Some (st\<lparr>toast := Title_required\<rparr>)
      else
        let selectedArr = selectedPhotos st;
            cover = (if f_cover form \<noteq> [] then f_cover form
                     else if selectedArr \<noteq> [] then hd selectedArr else [])
        in if editingAlbumIndex st \<ge> 0 then
             (if editingAlbumIndex st < int (length (albums st)) then
                let i = nat (editingAlbumIndex st);
                    a = (albums st ! i)\<lparr>a_title := f_title form,
                          a_description := f_description form,
                          a_cover := cover, a_photos := selectedArr\<rparr>
                in Some (st\<lparr>albums := (albums st)[i := a],
                           toast := Album_updated,
                           editingAlbumIndex := - 1, selectedPhotos := []\<rparr>)
              else None)
           else
             Some (st\<lparr>albums := albums st @
                          [\<lparr>a_id = new_album_id (albums st) form,
                            a_title = f_title form,
                            a_description = f_description form,
                            a_cover = cover, a_photos = selectedArr\<rparr>],
                       toast := Album_created,
                       editingAlbumIndex := - 1, selectedPhotos := []\<rparr>))"

section \<open>The manifest data/photos.json\<close>

text \<open>
  An entry of the \<^verbatim>\<open>photos\<close> array with the keys the two scripts write. A key
  that a hand-written or older entry may lack is an option (\<open>None\<close> is jq's
  \<^verbatim>\<open>null\<close>). \<open>e_media\<close> is the \<^verbatim>\<open>media\<close> array of the Instagram import.
\<close>

record media_item =
  m_type :: string
  m_web :: string
  m_poster :: "string option"
  m_thumbnail :: string
  m_duration :: "string option"

record entry =
  e_filename :: string
  e_web :: string
  e_thumbnail :: string
  e_slug :: "string option"
  e_date :: "string option"
  e_caption :: string
  e_camera :: string
  e_lens :: string
  e_settings :: string
  e_location :: string
  e_gps_lat :: string
  e_gps_lon :: string
  e_width :: "nat option"
  e_height :: "nat option"
  e_media :: "media_item list option"

record manifest =
  profile :: "(string \<times> string) list"
  photos :: "entry list"

text \<open>
  \<^verbatim>\<open>jq '.photos |= sort_by(.date) | .photos |= reverse'\<close>: a stable sort by the
  date, \<^verbatim>\<open>null\<close> before every string and strings by code point, then reversed.
\<close>

definition sort_newest_first :: "entry list \<Rightarrow> entry list" where
  "sort_newest_first es = rev (sort_key e_date es)"

text \<open>The lines that the sitemap block (process-photos.sh, lines 308-314) writes.\<close>

definition sitemap_lines :: "string \<Rightarrow> entry list \<Rightarrow> string list" where
  "sitemap_lines site_url es =
     [''<?xml version=\"1.0\" encoding=\"UTF-8\"?>'',
      ''<urlset xmlns=\"http://www.sitemaps.org/schemas/sitemap/0.9\">'',
      ''  <url><loc>'' @ site_url @ ''</loc></url>''] @
     map (\<lambda>e. ''  <url><loc>'' @ site_url @ ''#photo='' @
            (case e_slug e of None \<Rightarrow> ''null'' | Some sl \<Rightarrow> sl) @ ''</loc></url>'') es @
     [''</urlset>'']"

section \<open>process-photos.sh\<close>

text \<open>
  What the external tools report for one file of \<^verbatim>\<open>photos/originals\<close>
  (lines 143-241): the date (EXIF, else the modification time), the camera,
  lens, settings and location strings, the GPS position, the size, and whether
  the ImageMagick conversion to the web image (line 212) and the three
  thumbnail conversions (lines 223-241) succeed.
\<close>

record file_info =
  fi_date :: string
  fi_camera :: string
  fi_lens :: string
  fi_settings :: string
  fi_location :: string
  fi_gps_lat :: string
  fi_gps_lon :: string
  fi_width :: "nat option"
  fi_height :: "nat option"
  fi_web_ok :: bool
  fi_thumbs_ok :: bool

text \<open>
  The files the script reads and writes: the regular files of
  \<^verbatim>\<open>photos/originals\<close> by name, in the order of the glob (the folder is taken
  to hold regular files only), the manifest, and \<^verbatim>\<open>sitemap.xml\<close> if it exists.
\<close>

record site =
  originals :: "(string \<times> file_info) list"
  json :: manifest
  sitemap :: "string list option"

datatype message =
    Renamed string string
  | Skipping_non_image string
  | Processing string
  | Web_optimized string
  | Thumbnails_done
  | Added_to_json
  | Sorted_newest_first
  | Processed_new nat
  | Generated_sitemap
  | No_new_photos_skipped nat
  | No_new_photos

record run_state =
  files :: site
  new_count :: nat
  skipped_count :: nat
  printed :: "message list"

text \<open>
  \<^verbatim>\<open>set -e\<close>: a command that fails outside a condition ends the script at once.
  \<open>Aborted\<close> carries the state at that moment.
\<close>

datatype 'a outcome = Done 'a | Aborted 'a

fun final :: "'a outcome \<Rightarrow> 'a" where
  "final (Done x) = x"
| "final (Aborted x) = x"

definition completed :: "'a outcome \<Rightarrow> bool" where
  "completed r = (case r of Done x \<Rightarrow> True | Aborted x \<Rightarrow> False)"

definition is_space :: "char \<Rightarrow> bool" where
  "is_space c = (c = CHR '' '' \<or> (CHR 0x09 \<le> c \<and> c \<le> CHR 0x0D))"

definition spaces_to_hyphens :: "string \<Rightarrow> string" where
  "spaces_to_hyphens l = map (\<lambda>c. if is_space c then hyphen else c) l"

definition name_char :: "char \<Rightarrow> bool" where
  "name_char c =
     (is_lower c \<or> is_upper c \<or> is_digit c \<or> c = dot \<or> c = CHR ''_'' \<or> c = hyphen)"

definition special_to_hyphens :: "string \<Rightarrow> string" where
  "special_to_hyphens l = map (\<lambda>c. if name_char c then c else hyphen) l"

text \<open>
  Line 109, a pipe of \<^verbatim>\<open>echo "$filename"\<close> into four \<^verbatim>\<open>sed\<close> processes:
  white space (the class \<^verbatim>\<open>[:space:]\<close>) to hyphens,
  \<^verbatim>\<open>s/[^a-zA-Z0-9._-]/-/g\<close>, \<^verbatim>\<open>s/--*/-/g\<close> and \<^verbatim>\<open>s/^-//;s/-$//\<close>.
  The classes are read byte by byte as in the C locale. The script sets no
  locale; on an ASCII name every locale gives this result, on a byte above
  127 a UTF-8 locale may not (\<^verbatim>\<open>sed\<close> leaves an invalid byte alone).
\<close>

definition sanitize :: "string \<Rightarrow> string" where
  "sanitize name =
     cmd_subst (sed trim_hyphens (sed collapse (sed special_to_hyphens
       (sed spaces_to_hyphens (echo name)))))"

definition SUPPORTED_EXTENSIONS :: "string list" where
  "SUPPORTED_EXTENSIONS =
     [''jpg'', ''jpeg'', ''png'', ''tiff'', ''tif'', ''heic'', ''heif'', ''webp'', ''avif'', ''bmp'']"

text \<open>
  \<^verbatim>\<open>echo "$x" | grep -qE "^(a|b|...)$"\<close>: some line is one of the alternatives.
  For an extension without a newline the stream is one line, no line follows
  a match, and \<^verbatim>\<open>pipefail\<close> has no part in this test.
\<close>

definition grep_alternatives :: "string list \<Rightarrow> string \<Rightarrow> bool" where
  "grep_alternatives alts x = (\<exists>l \<in> set (lines_of (echo x)). l \<in> set alts)"

definition lower_ext :: "string \<Rightarrow> string" where
  "lower_ext name = cmd_subst (tr_lower (echo (last_ext name)))"

definition supported :: "string \<Rightarrow> bool" where
  "supported name = grep_alternatives SUPPORTED_EXTENSIONS (lower_ext name)"

text \<open>
  The exit status of \<^verbatim>\<open>grep -qxF "$x"\<close> reading the stream of
  \<^verbatim>\<open>echo "$known"\<close>: it is 0 when some line equals \<open>x\<close> (or, when \<open>x\<close> holds
  newlines, one of its lines). grep reads an \<open>x\<close> that starts with a hyphen as
  options; the only such names that reach the test are a hyphen, a number and
  an extension, on which grep stops with a usage error.
\<close>

definition grep_qxF :: "string \<Rightarrow> string \<Rightarrow> bool" where
  "grep_qxF x known =
     (if starts_with x ''-'' then False
      else (\<exists>l \<in> set (lines_of (echo known)). l \<in> set (split_nl x)))"

text \<open>
  The condition \<^verbatim>\<open>if echo "$known" | grep -qxF "$x"; then\<close> under
  \<^verbatim>\<open>set -o pipefail\<close> (line 26 of process-photos.sh, and the same option in
  import-instagram.sh): the pipeline succeeds when grep and echo both do.
  bash writes the stream in several writes (the first lines of a list go out
  one by one), and \<^verbatim>\<open>grep -q\<close> ends at its first matching line; if lines
  remain to be written by then, the next write of echo is met with SIGPIPE,
  the pipeline returns 141 and the \<^verbatim>\<open>if\<close> takes the value as not known.
  Whether grep wins this race is not decided by the script: it is an input of
  the model, a predicate \<open>race\<close> on the value looked for. When no line
  follows the first matching line, grep cannot match before echo has written
  the whole stream (the newline that ends the line is its last byte), and the
  test is not cut.
\<close>

definition after_match :: "string \<Rightarrow> string \<Rightarrow> string list" where
  "after_match x known =
     tl (dropWhile (\<lambda>l. l \<notin> set (split_nl x)) (lines_of (echo known)))"

definition pipe_cut :: "(string \<Rightarrow> bool) \<Rightarrow> string \<Rightarrow> string \<Rightarrow> bool" where
  "pipe_cut race known x = (after_match x known \<noteq> [] \<and> race x)"

definition known_test :: "(string \<Rightarrow> bool) \<Rightarrow> string \<Rightarrow> string \<Rightarrow> bool" where
  "known_test race x known = (grep_qxF x known \<and> \<not> pipe_cut race known x)"

text \<open>Line 95: \<^verbatim>\<open>known_files=$(jq -r '.photos[].filename' "$JSON_FILE")\<close>\<close>

definition known_files :: "manifest \<Rightarrow> string" where
  "known_files m = cmd_subst (concat (map (\<lambda>e. e_filename e @ [nl]) (photos m)))"

definition is_file :: "(string \<times> file_info) list \<Rightarrow> string \<Rightarrow> bool" where
  "is_file dir name = (name \<in> set (map fst dir))"

text \<open>
  Lines 115-118: \<^verbatim>\<open>counter\<close> starts at 1 and is raised while a file named
  \<^verbatim>\<open>${base}-${counter}.${ext_s}\<close> exists in the folder.
\<close>

function free_counter :: "string list \<Rightarrow> string \<Rightarrow> string \<Rightarrow> nat \<Rightarrow> nat" where
  "free_counter names base ext_s counter =
     (if base @ ''-'' @ dec counter @ ''.'' @ ext_s \<in> set names
      then free_counter names base ext_s (counter + 1)
      else counter)"
  by pat_completeness auto
termination
proof (relation "measure (\<lambda>(names, base, ext_s, c).
    card (taken_from (base @ ''-'') (''.'' @ ext_s) names c))")
  show "wf (measure (\<lambda>(names, base, ext_s, c).
    card (taken_from (base @ ''-'') (''.'' @ ext_s) names c)))"
    by simp
next
  fix names :: "string list" and base ext_s :: string and counter :: nat
  assume "base @ ''-'' @ dec counter @ ''.'' @ ext_s \<in> set names"
  then have "card (taken_from (base @ ''-'') (''.'' @ ext_s) names (Suc counter))
      < card (taken_from (base @ ''-'') (''.'' @ ext_s) names counter)"
    using taken_from_Suc_less [of "base @ ''-''" counter "''.'' @ ext_s" names] by simp
  then show "((names, base, ext_s, counter + 1), (names, base, ext_s, counter))
    \<in> measure (\<lambda>(names, base, ext_s, c).
      card (taken_from (base @ ''-'') (''.'' @ ext_s) names c))"
    by simp
qed

declare free_counter.simps [simp del]

text \<open>Lines 112-120: the name a file is moved to when its sanitized name is taken.\<close>

definition rename_target :: "(string \<times> file_info) list \<Rightarrow> string \<Rightarrow> string" where
  "rename_target dir sanitized =
     (if is_file dir sanitized then
        let base = strip_last_ext sanitized;
            ext_s = last_ext sanitized;
            counter = free_counter (map fst dir) base ext_s 1
        in base @ ''-'' @ dec counter @ ''.'' @ ext_s
      else sanitized)"

definition rename_file :: "string \<Rightarrow> string \<Rightarrow> (string \<times> file_info) list \<Rightarrow> (string \<times> file_info) list" where
  "rename_file old new dir = map (\<lambda>(n, i). if n = old then (new, i) else (n, i)) dir"

definition remove_file :: "string \<Rightarrow> (string \<times> file_info) list \<Rightarrow> (string \<times> file_info) list" where
  "remove_file old dir = filter (\<lambda>(n, i). n \<noteq> old) dir"

text \<open>Lines 211, 220 and 245-281: the entry built for a new photo.\<close>

definition new_entry :: "string \<Rightarrow> string \<Rightarrow> file_info \<Rightarrow> entry" where
  "new_entry CAPTION name info =
     \<lparr>e_filename = name,
      e_web = strip_last_ext name @ ''.webp'',
      e_thumbnail = ''thumb_'' @ strip_last_ext name @ ''.webp'',
      e_slug = Some (shell_slug name),
      e_date = Some (fi_date info),
      e_caption = CAPTION,
      e_camera = fi_camera info,
      e_lens = fi_lens info,
      e_settings = fi_settings info,
      e_location = fi_location info,
      e_gps_lat = fi_gps_lat info,
      e_gps_lon = fi_gps_lon info,
      e_width = fi_width info,
      e_height = fi_height info,
      e_media = None\<rparr>"

definition say :: "message list \<Rightarrow> run_state \<Rightarrow> run_state" where
  "say ms st = st\<lparr>printed := printed st @ ms\<rparr>"

definition prepend_entry :: "entry \<Rightarrow> run_state \<Rightarrow> run_state" where
  "prepend_entry e st =
     st\<lparr>files := (files st)\<lparr>json := (json (files st))\<lparr>photos := e # photos (json (files st))\<rparr>\<rparr>\<rparr>"

text \<open>
  Lines 127-289 of the loop body, for the file under the name it has after
  the renaming step. A failed conversion ends the script (\<^verbatim>\<open>set -e\<close>).
\<close>

definition process_named ::
  "(string \<Rightarrow> bool) \<Rightarrow> string \<Rightarrow> string \<Rightarrow> string \<Rightarrow> file_info \<Rightarrow> run_state \<Rightarrow> run_state outcome" where
  "process_named race CAPTION known name info st =
     (if \<not> supported name then
        Done (say [Skipping_non_image name] (st\<lparr>skipped_count := skipped_count st + 1\<rparr>))
      else if known_test race name known then Done st
      else if \<not> fi_web_ok info then Aborted (say [Processing name] st)
      else if \<not> fi_thumbs_ok info then
        Aborted (say [Processing name, Web_optimized (strip_last_ext name @ ''.webp'')] st)
      else
        Done (say [Processing name, Web_optimized (strip_last_ext name @ ''.webp''),
                   Thumbnails_done, Added_to_json]
               ((prepend_entry (new_entry CAPTION name info) st)
                  \<lparr>new_count := new_count st + 1\<rparr>)))"

text \<open>
  One pass of the \<^verbatim>\<open>for\<close> loop (lines 100-290). \<^verbatim>\<open>mv\<close> onto the folder itself
  (an empty target or \<^verbatim>\<open>.\<close>) fails and ends the script; \<^verbatim>\<open>mv\<close> onto
  \<^verbatim>\<open>..\<close> moves the file out of the folder.
\<close>

definition set_originals :: "(string \<times> file_info) list \<Rightarrow> run_state \<Rightarrow> run_state" where
  "set_originals dir st = st\<lparr>files := (files st)\<lparr>originals := dir\<rparr>\<rparr>"

definition process_file ::
  "(string \<Rightarrow> bool) \<Rightarrow> string \<Rightarrow> string \<Rightarrow> string \<Rightarrow> run_state \<Rightarrow> run_state outcome" where
  "process_file race CAPTION known name st =
     (let dir = originals (files st) in
      case map_of dir name of
        None \<Rightarrow> Done st
      | Some info \<Rightarrow>
          if starts_with name ''.'' then Done st
          else
            let sanitized = sanitize name in
            if sanitized \<noteq> name then
              (let target = rename_target dir sanitized in
               if target = [] \<or> target = ''.'' then Aborted st
               else if target = ''..'' then
                 process_named race CAPTION known target info
                   (say [Renamed name target] (set_originals (remove_file name dir) st))
               else
                 process_named race CAPTION known target info
                   (say [Renamed name target] (set_originals (rename_file name target dir) st)))
            else process_named race CAPTION known name info st)"

fun for_each_file ::
  "(string \<Rightarrow> bool) \<Rightarrow> string \<Rightarrow> string \<Rightarrow> string list \<Rightarrow> run_state \<Rightarrow> run_state outcome" where
  "for_each_file race CAPTION known [] st = Done st"
| "for_each_file race CAPTION known (name # names) st =
     (case process_file race CAPTION known name st of
        Aborted st' \<Rightarrow> Aborted st'
      | Done st' \<Rightarrow> for_each_file race CAPTION known names st')"

text \<open>The glob \<^verbatim>\<open>"$ORIGINALS_DIR"/*\<close> leaves out the names that start with a dot.\<close>

definition glob_originals :: "(string \<times> file_info) list \<Rightarrow> string list" where
  "glob_originals dir = filter (\<lambda>n. \<not> starts_with n ''.'') (map fst dir)"

text \<open>Lines 292-321: the sort, the summary and the sitemap.\<close>

definition write_sitemap :: "run_state \<Rightarrow> run_state" where
  "write_sitemap st =
     (case map_of (profile (json (files st))) ''siteUrl'' of
        None \<Rightarrow> st
      | Some site_url \<Rightarrow>
          if site_url = [] then st
          else say [Generated_sitemap]
                 (st\<lparr>files := (files st)\<lparr>sitemap :=
                        Some (sitemap_lines site_url (photos (json (files st))))\<rparr>\<rparr>))"

definition sort_photos :: "run_state \<Rightarrow> run_state" where
  "sort_photos st =
     st\<lparr>files := (files st)\<lparr>json := (json (files st))\<lparr>photos :=
           sort_newest_first (photos (json (files st)))\<rparr>\<rparr>\<rparr>"

definition finish :: "run_state \<Rightarrow> run_state" where
  "finish st =
     (if new_count st > 0 then
        write_sitemap (say [Sorted_newest_first, Processed_new (new_count st)] (sort_photos st))
      else if skipped_count st > 0 then say [No_new_photos_skipped (skipped_count st)] st
      else say [No_new_photos] st)"

definition start :: "site \<Rightarrow> run_state" where
  "start s = \<lparr>files = s, new_count = 0, skipped_count = 0, printed = []\<rparr>"

definition process_photos :: "(string \<Rightarrow> bool) \<Rightarrow> string \<Rightarrow> site \<Rightarrow> run_state outcome" where
  "process_photos race CAPTION s =
     (case for_each_file race CAPTION (known_files (json s)) (glob_originals (originals s))
             (start s) of
        Aborted st \<Rightarrow> Aborted st
      | Done st \<Rightarrow> Done (finish st))"

section \<open>import-instagram.sh\<close>

text \<open>
  What the export folder and the tools give for the file behind one media
  item: whether ImageMagick converts it to the web image (lines 438-441),
  for a video whether ffmpeg encodes it (375-380), extracts the poster frame
  at the first attempt (387-389) or at the second (390-391), whether the
  1080 pixel thumbnail is made from the poster (399-401), the duration string,
  and the EXIF strings of lines 468-519.
\<close>

record ig_file =
  x_web_ok :: bool
  x_encode_ok :: bool
  x_poster_ok :: bool
  x_poster_retry_ok :: bool
  x_thumb_ok :: bool
  x_duration :: string
  x_camera :: string
  x_lens :: string
  x_settings :: string
  x_location :: string
  x_gps_lat :: string
  x_gps_lon :: string
  x_width :: "nat option"
  x_height :: "nat option"

text \<open>
  A media item and a post of \<^verbatim>\<open>posts_1.json\<close>; \<open>ig_found\<close> is the file at
  \<^verbatim>\<open>$EXPORT_DIR/$uri\<close>, \<open>None\<close> when there is no such regular file.
\<close>

record ig_media =
  ig_uri :: "string option"
  ig_media_title :: "string option"
  ig_media_timestamp :: "nat option"
  ig_found :: "ig_file option"

record ig_post =
  post_title :: "string option"
  post_timestamp :: "nat option"
  post_media :: "ig_media list"

text \<open>
  The environment of a run: whether ffmpeg is installed,
  \<^verbatim>\<open>date -r "$ts" "+%Y-%m-%dT%H:%M:%S"\<close> (empty when \<^verbatim>\<open>date\<close> fails), and the
  race between echo and grep in the test of line 304.
\<close>

record ig_env =
  HAS_FFMPEG :: bool
  format_date :: "string \<Rightarrow> string"
  slug_race :: "string \<Rightarrow> bool"

datatype ig_message =
    Migrating nat
  | Processing_post nat nat
  | No_URI nat
  | File_not_found string
  | Unsupported_file_type string
  | Skipping_video_no_ffmpeg string
  | Failed_to_encode_video string
  | Failed_to_extract_poster string
  | Failed_video_thumbnails string
  | Failed_to_convert_image string
  | Video_done nat string
  | Image_done nat string
  | No_media_processed
  | Import_sorted
  | Import_complete nat nat nat nat
  | Import_sitemap

definition VIDEO_EXTENSIONS :: "string list" where
  "VIDEO_EXTENSIONS = [''mp4'', ''mov'', ''avi'', ''mkv'', ''webm'', ''m4v'']"

text \<open>\<^verbatim>\<open>basename\<close>: trailing slashes are dropped, then what follows the last slash is kept.\<close>

definition basename :: "string \<Rightarrow> string" where
  "basename path =
     (let q = rev (dropWhile (\<lambda>c. c = CHR ''/'') (rev path))
      in if q = [] then (if path = [] then [] else ''/'')
         else rev (takeWhile (\<lambda>c. c \<noteq> CHR ''/'') (rev q)))"

text \<open>The variables of the media loop (lines 313-324) and what it prints.\<close>

record media_acc =
  media_array :: "media_item list"
  first_web :: string
  first_thumb :: string
  post_exif :: "ig_file option"
  any_error :: bool
  warnings :: "ig_message list"

definition warn :: "ig_message \<Rightarrow> media_acc \<Rightarrow> media_acc" where
  "warn m acc = acc\<lparr>warnings := warnings acc @ [m]\<rparr>"

definition add_media :: "media_item \<Rightarrow> string \<Rightarrow> media_acc \<Rightarrow> media_acc" where
  "add_media item shown acc =
     (let acc1 = acc\<lparr>media_array := media_array acc @ [item]\<rparr>
      in if first_web acc = [] then acc1\<lparr>first_web := shown, first_thumb := m_thumbnail item\<rparr>
         else acc1)"

text \<open>One pass of the media loop (lines 326-524) for item number \<open>mi\<close>.\<close>

definition process_media :: "ig_env \<Rightarrow> string \<Rightarrow> nat \<Rightarrow> nat \<Rightarrow> ig_media \<Rightarrow> media_acc \<Rightarrow> media_acc" where
  "process_media env slug media_count mi item acc =
     (let uri = or_empty (ig_uri item) in
      if uri = [] then warn (No_URI mi) acc
      else case ig_found item of
        None \<Rightarrow> (warn (File_not_found uri) acc)\<lparr>any_error := True\<rparr>
      | Some f \<Rightarrow>
          let src_filename = basename uri;
              src_ext_lower = lower_ext src_filename;
              item_is_video = grep_alternatives VIDEO_EXTENSIONS src_ext_lower
          in if \<not> item_is_video \<and> \<not> grep_alternatives SUPPORTED_EXTENSIONS src_ext_lower
             then warn (Unsupported_file_type src_filename) acc
             else
               let out_base = (if media_count > 1 then slug @ ''-'' @ dec (mi + 1) else slug)
               in if item_is_video then
                    (if \<not> HAS_FFMPEG env then warn (Skipping_video_no_ffmpeg src_filename) acc
                     else if \<not> x_encode_ok f then warn (Failed_to_encode_video src_filename) acc
                     else if \<not> x_poster_ok f \<and> \<not> x_poster_retry_ok f
                       then warn (Failed_to_extract_poster src_filename) acc
                     else if \<not> x_thumb_ok f then warn (Failed_video_thumbnails src_filename) acc
                     else
                       warn (Video_done (mi + 1) (out_base @ ''.mp4''))
                         (add_media
                            \<lparr>m_type = ''video'', m_web = out_base @ ''.mp4'',
                              m_poster = Some (out_base @ ''-poster.webp''),
                              m_thumbnail = ''thumb_'' @ out_base @ ''.webp'',
                              m_duration = Some (x_duration f)\<rparr>
                            (out_base @ ''-poster.webp'') acc))
                  else
                    (if \<not> x_web_ok f then warn (Failed_to_convert_image src_filename) acc
                     else
                       let acc1 = add_media
                             \<lparr>m_type = ''image'', m_web = out_base @ ''.webp'',
                               m_poster = None,
                               m_thumbnail = ''thumb_'' @ out_base @ ''.webp'',
                               m_duration = None\<rparr>
                             (out_base @ ''.webp'') acc;
                           acc2 = (if mi = 0 then acc1\<lparr>post_exif := Some f\<rparr> else acc1)
                       in warn (Image_done (mi + 1) (out_base @ ''.webp'')) acc2))"

fun media_loop :: "ig_env \<Rightarrow> string \<Rightarrow> nat \<Rightarrow> nat \<Rightarrow> ig_media list \<Rightarrow> media_acc \<Rightarrow> media_acc" where
  "media_loop env slug media_count mi [] acc = acc"
| "media_loop env slug media_count mi (item # items) acc =
     media_loop env slug media_count (mi + 1) items
       (process_media env slug media_count mi item acc)"

record import_state =
  i_files :: site
  i_new_count :: nat
  i_skipped_count :: nat
  i_error_count :: nat
  i_printed :: "ig_message list"

definition timestamp_string :: "nat option \<Rightarrow> string" where
  "timestamp_string t = (case t of None \<Rightarrow> [] | Some n \<Rightarrow> dec n)"

definition first_media :: "ig_post \<Rightarrow> ig_media option" where
  "first_media post = (case post_media post of [] \<Rightarrow> None | m # ms \<Rightarrow> Some m)"

text \<open>Lines 277-301: the time stamp the slug is made of, and the slug.\<close>

definition post_creation_ts :: "ig_env \<Rightarrow> ig_post \<Rightarrow> string" where
  "post_creation_ts env post =
     (let creation_ts = timestamp_string (post_timestamp post);
          post_date = (if creation_ts \<noteq> [] \<and> creation_ts \<noteq> ''0''
                       then format_date env creation_ts else []);
          media_ts = (case first_media post of None \<Rightarrow> []
                      | Some m \<Rightarrow> timestamp_string (ig_media_timestamp m))
      in if post_date = [] \<and> media_ts \<noteq> [] \<and> media_ts \<noteq> ''0'' then media_ts
         else creation_ts)"

definition post_date_of :: "ig_env \<Rightarrow> ig_post \<Rightarrow> string" where
  "post_date_of env post =
     (let creation_ts = timestamp_string (post_timestamp post);
          post_date = (if creation_ts \<noteq> [] \<and> creation_ts \<noteq> ''0''
                       then format_date env creation_ts else []);
          media_ts = (case first_media post of None \<Rightarrow> []
                      | Some m \<Rightarrow> timestamp_string (ig_media_timestamp m))
      in if post_date = [] \<and> media_ts \<noteq> [] \<and> media_ts \<noteq> ''0''
         then format_date env media_ts else post_date)"

definition post_slug :: "ig_env \<Rightarrow> nat \<Rightarrow> ig_post \<Rightarrow> string" where
  "post_slug env idx post =
     (let creation_ts = post_creation_ts env post;
          base_slug = (if creation_ts \<noteq> [] then ''ig-'' @ creation_ts
                       else ''ig-post-'' @ dec idx)
      in slugify_pipeline base_slug)"

definition post_caption :: "ig_post \<Rightarrow> string" where
  "post_caption post =
     (if or_empty (post_title post) \<noteq> [] then or_empty (post_title post)
      else case first_media post of None \<Rightarrow> [] | Some m \<Rightarrow> or_empty (ig_media_title m))"

text \<open>Lines 534-570: the entry of an imported post.\<close>

definition ig_entry :: "ig_env \<Rightarrow> nat \<Rightarrow> ig_post \<Rightarrow> media_acc \<Rightarrow> entry" where
  "ig_entry env idx post acc =
     (let first_uri = (case first_media post of None \<Rightarrow> [] | Some m \<Rightarrow> or_empty (ig_uri m));
          x = post_exif acc
      in \<lparr>e_filename = basename first_uri,
          e_web = first_web acc,
          e_thumbnail = first_thumb acc,
          e_slug = Some (post_slug env idx post),
          e_date = Some (post_date_of env post),
          e_caption = post_caption post,
          e_camera = (case x of None \<Rightarrow> [] | Some f \<Rightarrow> x_camera f),
          e_lens = (case x of None \<Rightarrow> [] | Some f \<Rightarrow> x_lens f),
          e_settings = (case x of None \<Rightarrow> [] | Some f \<Rightarrow> x_settings f),
          e_location = (case x of None \<Rightarrow> [] | Some f \<Rightarrow> x_location f),
          e_gps_lat = (case x of None \<Rightarrow> [] | Some f \<Rightarrow> x_gps_lat f),
          e_gps_lon = (case x of None \<Rightarrow> [] | Some f \<Rightarrow> x_gps_lon f),
          e_width = (case x of None \<Rightarrow> None | Some f \<Rightarrow> x_width f),
          e_height = (case x of None \<Rightarrow> None | Some f \<Rightarrow> x_height f),
          e_media = Some (media_array acc)\<rparr>)"

definition empty_acc :: media_acc where
  "empty_acc = \<lparr>media_array = [], first_web = [], first_thumb = [], post_exif = None,
     any_error = False, warnings = []\<rparr>"

definition append_entry :: "entry \<Rightarrow> import_state \<Rightarrow> import_state" where
  "append_entry e st =
     st\<lparr>i_files := (i_files st)\<lparr>json := (json (i_files st))\<lparr>photos :=
           photos (json (i_files st)) @ [e]\<rparr>\<rparr>\<rparr>"

text \<open>One pass of the post loop (lines 265-582) for post number \<open>idx\<close>.\<close>

definition process_post :: "ig_env \<Rightarrow> string \<Rightarrow> nat \<Rightarrow> ig_post \<Rightarrow> import_state \<Rightarrow> import_state" where
  "process_post env known_slugs idx post st =
     (let slug = post_slug env idx post in
      if known_test (slug_race env) slug known_slugs then st\<lparr>i_skipped_count := i_skipped_count st + 1\<rparr>
      else
        let media_count = length (post_media post);
            acc = media_loop env slug media_count 0 (post_media post) empty_acc;
            st1 = st\<lparr>i_printed := i_printed st @ [Processing_post (idx + 1) media_count]
                        @ warnings acc\<rparr>
        in if media_array acc = [] then
             st1\<lparr>i_printed := i_printed st1 @ [No_media_processed],
                 i_error_count := i_error_count st1 + 1\<rparr>
           else
             (append_entry (ig_entry env idx post acc) st1)
               \<lparr>i_new_count := i_new_count st1 + 1,
                i_error_count := (if any_error acc then i_error_count st1 + 1
                                  else i_error_count st1)\<rparr>)"

fun post_loop :: "ig_env \<Rightarrow> string \<Rightarrow> nat \<Rightarrow> ig_post list \<Rightarrow> import_state \<Rightarrow> import_state" where
  "post_loop env known_slugs idx [] st = st"
| "post_loop env known_slugs idx (post # posts) st =
     post_loop env known_slugs (idx + 1) posts (process_post env known_slugs idx post st)"

text \<open>Lines 238-249: entries without a \<^verbatim>\<open>media\<close> array get one.\<close>

definition migrate_entry :: "entry \<Rightarrow> entry" where
  "migrate_entry e =
     (if e_media e = None
      then e\<lparr>e_media := Some [\<lparr>m_type = ''image'', m_web = e_web e, m_poster = None,
                                 m_thumbnail = e_thumbnail e, m_duration = None\<rparr>]\<rparr>
      else e)"

text \<open>Line 252: \<^verbatim>\<open>known_slugs=$(jq -r '.photos[].slug // empty' "$JSON_FILE")\<close>\<close>

definition known_slugs_of :: "manifest \<Rightarrow> string" where
  "known_slugs_of m =
     cmd_subst (concat (map (\<lambda>e. case e_slug e of None \<Rightarrow> [] | Some sl \<Rightarrow> sl @ [nl]) (photos m)))"

definition import_finish :: "import_state \<Rightarrow> import_state" where
  "import_finish st =
     (let m = json (i_files st);
          m1 = (if i_new_count st > 0 then m\<lparr>photos := sort_newest_first (photos m)\<rparr> else m);
          msgs = (if i_new_count st > 0 then [Import_sorted] else []) @
                 [Import_complete (i_new_count st) (i_skipped_count st) (i_error_count st)
                    (length (photos m1))];
          st1 = st\<lparr>i_files := (i_files st)\<lparr>json := m1\<rparr>, i_printed := i_printed st @ msgs\<rparr>
      in if i_new_count st > 0 then
           (case map_of (profile m1) ''siteUrl'' of
              None \<Rightarrow> st1
            | Some site_url \<Rightarrow>
                if site_url = [] then st1
                else st1\<lparr>i_files := (i_files st1)\<lparr>sitemap :=
                           Some (sitemap_lines site_url (photos m1))\<rparr>,
                         i_printed := i_printed st1 @ [Import_sitemap]\<rparr>)
         else st1)"

definition import_instagram :: "ig_env \<Rightarrow> ig_post list \<Rightarrow> site \<Rightarrow> import_state" where
  "import_instagram env posts s =
     (let needs_migration = length (filter (\<lambda>e. e_media e = None) (photos (json s)));
          m = (if needs_migration > 0
               then (json s)\<lparr>photos := map migrate_entry (photos (json s))\<rparr> else json s);
          st0 = \<lparr>i_files = s\<lparr>json := m\<rparr>, i_new_count = 0, i_skipped_count = 0,
                 i_error_count = 0,
                 i_printed = (if needs_migration > 0 then [Migrating needs_migration] else [])\<rparr>
      in import_finish (post_loop env (known_slugs_of m) 0 posts st0))"

section \<open>Notions used in the statements\<close>

definition manifest_photos :: "run_state \<Rightarrow> entry list" where
  "manifest_photos st = photos (json (files st))"

definition manifest_profile :: "run_state \<Rightarrow> (string \<times> string) list" where
  "manifest_profile st = profile (json (files st))"

text \<open>
  The slug of a file name in the words of the specification: the extension
  is stripped, the rest is lowercased, every character outside
  \<^verbatim>\<open>[a-z0-9-]\<close> is replaced by a hyphen, hyphen runs are collapsed, and the
  leading and trailing hyphens are trimmed. This one is not taken from the
  pipeline of line 249; it is what the pipeline is compared with.
\<close>

definition strip_hyphens :: "string \<Rightarrow> string" where
  "strip_hyphens s =
     rev (dropWhile (\<lambda>c. c = hyphen) (rev (dropWhile (\<lambda>c. c = hyphen) s)))"

definition claimed_slug :: "string \<Rightarrow> string" where
  "claimed_slug filename =
     strip_hyphens (collapse (map (\<lambda>c. if slug_char c then c else hyphen)
       (map to_lower (strip_last_ext filename))))"


text \<open>
  The character classes of \<^verbatim>\<open>sed\<close> and \<^verbatim>\<open>tr\<close> are modelled as those of the C
  locale, byte by byte. The script sets no locale, and in a UTF-8 locale
  \<^verbatim>\<open>sed\<close> treats a byte above 127 differently (a multibyte character is one
  character, an invalid byte is left alone). On ASCII text every locale gives
  what the model gives, so the statements about sanitized names and about
  slugs are for ASCII names without a newline (\<open>text_name\<close>); those about
  file names in the manifest ask in addition for a sanitized name whose stem
  (the part before the last dot) is not empty (\<open>plain_name\<close>). \<open>clean\<close> is
  what line 109 computes for a name without a newline.
\<close>

definition text_name :: "string \<Rightarrow> bool" where
  "text_name n = (ascii n \<and> nl \<notin> set n)"

definition clean :: "string \<Rightarrow> string" where
  "clean n = trim_hyphens (collapse (special_to_hyphens (spaces_to_hyphens n)))"

definition plain_name :: "string \<Rightarrow> bool" where
  "plain_name n = (ascii n \<and> nl \<notin> set n \<and> strip_last_ext (sanitize n) \<noteq> [])"

text \<open>
  No test for a name of the list \<open>known\<close> is cut short: for every line of the
  list, grep does not end before echo has written the lines that follow it,
  or no line follows. \<open>never\<close> and \<open>always\<close> are the two extreme races.
\<close>

definition uncut :: "(string \<Rightarrow> bool) \<Rightarrow> string \<Rightarrow> bool" where
  "uncut race known = (\<forall>x \<in> set (lines_of (echo known)). \<not> pipe_cut race known x)"

definition never :: "string \<Rightarrow> bool" where
  "never x = False"

definition always :: "string \<Rightarrow> bool" where
  "always x = True"




definition folder_names :: "run_state \<Rightarrow> string list" where
  "folder_names st = map fst (originals (files st))"

text \<open>
  The loop invariant behind the statement on file names: the folder has no
  name twice, the names still to be visited are in the folder, and the
  manifest is the old one with entries in front whose file names are in the
  folder and already visited; no file name occurs twice in the manifest.
\<close>

definition tracked :: "entry list \<Rightarrow> string list \<Rightarrow> run_state \<Rightarrow> bool" where
  "tracked P0 rest st \<longleftrightarrow>
     distinct (folder_names st) \<and> distinct rest \<and> set rest \<subseteq> set (folder_names st) \<and>
     (\<exists>A. manifest_photos st = A @ P0
        \<and> set (map e_filename A) \<subseteq> set (folder_names st) - set rest
        \<and> distinct (map e_filename (A @ P0)))"

text \<open>
  A name that a run leaves alone: it is its own sanitized name, and if its
  extension is supported, the test of line 137 finds it among the known files.
\<close>

definition settled :: "(string \<Rightarrow> bool) \<Rightarrow> string \<Rightarrow> string \<Rightarrow> bool" where
  "settled race known n = (sanitize n = n \<and> (supported n \<longrightarrow> known_test race n known))"

section \<open>Concrete photos, folders and albums\<close>

definition local_photo :: "string \<Rightarrow> string option \<Rightarrow> photo" where
  "local_photo name sl =
     \<lparr>p_filename = name, p_slug = sl, p_web = strip_last_ext name @ ''.webp'',
      p_caption = None, p_palBaseUrl = None\<rparr>"

definition same_slug_photos :: "photo list" where
  "same_slug_photos = [local_photo ''a.jpg'' (Some ''a''), local_photo ''a.png'' (Some ''a'')]"

definition two_photos :: "photo list" where
  "two_photos = [local_photo ''a.jpg'' (Some ''a''), local_photo ''B 2.JPG'' None]"

definition viewer_first :: lightbox where
  "viewer_first = init two_photos ''#photo=a''"

definition viewer_last :: lightbox where
  "viewer_last = init two_photos ''#photo=b-2''"

definition trip_albums :: admin where
  "trip_albums =
     \<lparr>albums = [\<lparr>a_id = ''trip'', a_title = ''Trip'', a_description = [], a_cover = [],
                   a_photos = []\<rparr>,
                 \<lparr>a_id = ''trip-2'', a_title = ''Trip'', a_description = [], a_cover = [],
                   a_photos = []\<rparr>],
      editingAlbumIndex = - 1, selectedPhotos = [''a.jpg''], toast = No_toast\<rparr>"

definition trip_form :: album_form where
  "trip_form = \<lparr>f_title = ''Trip!'', f_description = [], f_cover = [], f_now = 42\<rparr>"

definition jpeg_file :: file_info where
  "jpeg_file =
     \<lparr>fi_date = ''2024-05-01T10:00:00'', fi_camera = [], fi_lens = [], fi_settings = [],
      fi_location = [], fi_gps_lat = [], fi_gps_lon = [], fi_width = None, fi_height = None,
      fi_web_ok = True, fi_thumbs_ok = True\<rparr>"

definition empty_manifest :: manifest where
  "empty_manifest = \<lparr>profile = [], photos = []\<rparr>"

definition folder :: "(string \<times> file_info) list \<Rightarrow> site" where
  "folder fs = \<lparr>originals = fs, json = empty_manifest, sitemap = None\<rparr>"

definition two_downloads :: site where
  "two_downloads = folder [(''a (1).jpg'', jpeg_file), (''a-1-.jpg'', jpeg_file)]"

definition after_first_run :: site where
  "after_first_run = files (final (process_photos never [] two_downloads))"






definition tracked_pair :: site where
  "tracked_pair =
     \<lparr>originals = [(''a.jpg'', jpeg_file), (''b.jpg'', jpeg_file)],
      json = \<lparr>profile = [],
               photos = [new_entry [] ''a.jpg'' jpeg_file, new_entry [] ''b.jpg'' jpeg_file]\<rparr>,
      sitemap = None\<rparr>"

definition export_file :: ig_file where
  "export_file =
     \<lparr>x_web_ok = True, x_encode_ok = True, x_poster_ok = True, x_poster_retry_ok = True,
      x_thumb_ok = True, x_duration = ''0:05'', x_camera = [], x_lens = [], x_settings = [],
      x_location = [], x_gps_lat = [], x_gps_lon = [], x_width = None, x_height = None\<rparr>"

definition export_post :: "nat \<Rightarrow> string \<Rightarrow> ig_post" where
  "export_post ts uri =
     \<lparr>post_title = Some ''Hello'', post_timestamp = Some ts,
      post_media = [\<lparr>ig_uri = Some uri, ig_media_title = None, ig_media_timestamp = None,
                     ig_found = Some export_file\<rparr>]\<rparr>"

definition two_posts :: "ig_post list" where
  "two_posts = [export_post 100 ''media/posts/202401/photo.jpg'',
                export_post 200 ''media/posts/202402/photo.jpg'']"

definition this_mac :: ig_env where
  "this_mac = \<lparr>HAS_FFMPEG = True, format_date = (\<lambda>ts. ''2024-01-01T00:00:00''),
     slug_race = never\<rparr>"




section \<open>Streams that hold one line\<close>


lemma to_lower_nl: "c \<noteq> nl \<Longrightarrow> to_lower c \<noteq> nl"
proof
  assume a: "c \<noteq> nl" and b: "to_lower c = nl"
  show False
  proof (cases "is_upper c")
    case True
    then have r: "65 \<le> (of_char c :: nat) \<and> (of_char c :: nat) \<le> 90"
      by (simp add: is_upper_def less_eq_char_def)
    from True b have "char_of (of_char c + (32::nat)) = nl" by (simp add: to_lower_def)
    then have "(of_char (char_of (of_char c + (32::nat)) :: char) :: nat) = of_char nl" by simp
    then have "(of_char c + 32) mod 256 = (10::nat)" by (simp add: nl_def)
    with r show False by simp
  next
    case False
    with a b show False by (simp add: to_lower_def)
  qed
qed


lemma split_nl_no_nl: "nl \<notin> set s \<Longrightarrow> split_nl s = [s]"
  by (induction s) auto

lemma split_nl_append_nl: "nl \<notin> set s \<Longrightarrow> split_nl (s @ [nl]) = [s, []]"
  by (induction s) auto

lemma lines_of_single: "nl \<notin> set s \<Longrightarrow> lines_of (s @ [nl]) = [s]"
  by (simp add: lines_of_def split_nl_append_nl)

lemma sed_single: "nl \<notin> set s \<Longrightarrow> sed f (s @ [nl]) = f s @ [nl]"
  by (simp add: sed_def lines_of_single)

lemma cmd_subst_single: "nl \<notin> set s \<Longrightarrow> cmd_subst (s @ [nl]) = s"
proof (cases s rule: rev_cases)
  case Nil
  then show ?thesis by (simp add: cmd_subst_def)
next
  case (snoc ys y)
  assume "nl \<notin> set s"
  with snoc show ?thesis by (auto simp add: cmd_subst_def)
qed

lemma to_lower_nl_eq: "to_lower nl = nl"
  by (simp add: to_lower_def nl_def is_upper_def less_eq_char_def)

lemma hyphenate_no_nl: "nl \<notin> set (hyphenate l)"
  by (auto simp add: hyphenate_def slug_char_def nl_def hyphen_def is_lower_def is_digit_def less_eq_char_def)

lemma set_collapse: "set (collapse l) \<subseteq> set l"
  by (induction l rule: collapse.induct) auto

lemma set_trim_hyphens: "set (trim_hyphens l) \<subseteq> set l"
  by (auto simp add: trim_hyphens_def trim_lead_def trim_trail_def split: list.splits if_splits dest: in_set_butlastD)

lemma slugify_pipeline_line:
  assumes "nl \<notin> set y" and "\<not> is_echo_option y"
  shows "slugify_pipeline y = trim_hyphens (collapse (hyphenate (map to_lower y)))"
proof -
  have 1: "tr_lower (echo y) = map to_lower y @ [nl]"
    using assms by (simp add: echo_def tr_lower_def to_lower_nl_eq)
  have 2: "nl \<notin> set (map to_lower y)"
  proof
    assume "nl \<in> set (map to_lower y)"
    then obtain c where "c \<in> set y" and "to_lower c = nl" by auto
    with assms(1) to_lower_nl [of c] show False by auto
  qed
  have 3: "nl \<notin> set (collapse (hyphenate (map to_lower y)))"
    using set_collapse hyphenate_no_nl by blast
  have 4: "nl \<notin> set (trim_hyphens (collapse (hyphenate (map to_lower y))))"
    using set_trim_hyphens 3 by blast
  have "sed hyphenate (map to_lower y @ [nl]) = hyphenate (map to_lower y) @ [nl]"
    using 2 by (rule sed_single)
  moreover have "sed collapse (hyphenate (map to_lower y) @ [nl])
      = collapse (hyphenate (map to_lower y)) @ [nl]"
    using hyphenate_no_nl by (rule sed_single)
  moreover have "sed trim_hyphens (collapse (hyphenate (map to_lower y)) @ [nl])
      = trim_hyphens (collapse (hyphenate (map to_lower y))) @ [nl]"
    using 3 by (rule sed_single)
  moreover have "cmd_subst (trim_hyphens (collapse (hyphenate (map to_lower y))) @ [nl])
      = trim_hyphens (collapse (hyphenate (map to_lower y)))"
    using 4 by (rule cmd_subst_single)
  ultimately show ?thesis
    unfolding slugify_pipeline_def 1 by simp
qed

lemma collapse_Nil_iff: "collapse l = [] \<longleftrightarrow> l = []"
  by (induction l rule: collapse.induct) auto

lemma last_collapse: "l \<noteq> [] \<Longrightarrow> last (collapse l) = last l"
  by (induction l rule: collapse.induct) (auto simp add: collapse_Nil_iff)

lemma collapse_snoc_hyphen:
  "collapse (h @ [hyphen]) =
     (if h \<noteq> [] \<and> last h = hyphen then collapse h else collapse h @ [hyphen])"
  by (induction h rule: collapse.induct) (auto)

lemma trim_hyphens_snoc:
  assumes "c = [] \<or> last c \<noteq> hyphen"
  shows "trim_hyphens (c @ [hyphen]) = trim_hyphens c"
proof (cases c)
  case Nil
  then show ?thesis by (simp add: trim_hyphens_def trim_lead_def trim_trail_def)
next
  case (Cons a cs)
  with assms have l: "last (a # cs) \<noteq> hyphen" by simp
  show ?thesis
  proof (cases "a = hyphen")
    case True
    with l have "cs \<noteq> []" by auto
    with l True Cons show ?thesis
      by (simp add: trim_hyphens_def trim_lead_def trim_trail_def)
  next
    case False
    with l Cons show ?thesis
      by (simp add: trim_hyphens_def trim_lead_def trim_trail_def)
  qed
qed

lemma slug_tail_snoc_hyphen:
  "trim_hyphens (collapse (h @ [hyphen])) = trim_hyphens (collapse h)"
proof (cases "h \<noteq> [] \<and> last h = hyphen")
  case True
  then show ?thesis by (simp add: collapse_snoc_hyphen)
next
  case False
  then have "collapse h = [] \<or> last (collapse h) \<noteq> hyphen"
    by (auto simp add: collapse_Nil_iff last_collapse)
  then show ?thesis using False
    by (simp add: collapse_snoc_hyphen trim_hyphens_snoc)
qed

lemma last_ext_Nil: "dot \<in> set x \<Longrightarrow> last_ext x = [] \<Longrightarrow> x = strip_last_ext x @ [dot]"
  apply (cases x rule: rev_cases)
   apply (auto simp add: last_ext_def strip_last_ext_def split: if_splits)
  done

lemma hyphenate_dot: "hyphenate (map to_lower (y @ [dot])) = hyphenate (map to_lower y) @ [hyphen]"
  by (simp add: hyphenate_def to_lower_def dot_def is_upper_def slug_char_def is_lower_def is_digit_def hyphen_def less_eq_char_def)

lemma js_fallback_slug_alt:
  "js_fallback_slug x = trim_hyphens (collapse (hyphenate (map to_lower (strip_last_ext x))))"
proof (cases "dot \<in> set x \<and> last_ext x = []")
  case True
  then have "x = strip_last_ext x @ [dot]" by (simp add: last_ext_Nil)
  then have "hyphenate (map to_lower x) = hyphenate (map to_lower (strip_last_ext x)) @ [hyphen]"
    using hyphenate_dot by metis
  with True show ?thesis
    by (simp add: js_fallback_slug_def js_strip_ext_def slug_tail_snoc_hyphen)
next
  case False
  then show ?thesis
    by (auto simp add: js_fallback_slug_def js_strip_ext_def strip_last_ext_def)
qed

lemma in_set_tl: "c \<in> set (tl l) \<Longrightarrow> c \<in> set l"
  by (cases l) auto

lemma set_strip_last_ext: "set (strip_last_ext x) \<subseteq> set x"
  by (auto simp add: strip_last_ext_def split: if_splits dest!: in_set_tl set_dropWhileD)

section \<open>The two slug definitions\<close>

text \<open>
  On an ASCII file name without a newline whose stem is not an option of
  \<^verbatim>\<open>echo\<close>, the slug that line 249 stores is the slug that the fallback of
  \<^verbatim>\<open>slugFor\<close> computes from the file name.
\<close>

lemma pipeline_slug_is_fallback_slug:
  assumes "ascii filename" and "nl \<notin> set filename"
    and "\<not> is_echo_option (strip_last_ext filename)"
  shows "shell_slug filename = js_fallback_slug filename"
proof -
  have "nl \<notin> set (strip_last_ext filename)"
    using assms(2) set_strip_last_ext by blast
  then show ?thesis
    using assms(3) by (simp add: shell_slug_def slugify_pipeline_line js_fallback_slug_alt)
qed

text \<open>
  C8 at a concrete file name. For the file \<^verbatim>\<open>a<newline>b.jpg\<close> the two slug
  definitions give different strings: \<^verbatim>\<open>sed\<close> works line by line, so the
  pipeline of line 249 leaves the newline where it is and the script stores
  the slug \<^verbatim>\<open>a<newline>b\<close>, which is not made of a-z, 0-9 and hyphens; the
  regular expression of \<^verbatim>\<open>slugFor\<close> turns the newline into a hyphen and
  gives \<^verbatim>\<open>a-b\<close>. A run over a folder that holds this file stores the first
  of the two in the manifest, whatever the race.
\<close>

theorem newline_stays_in_stored_slug:
  "shell_slug ''a\<newline>b.jpg'' = ''a\<newline>b''
   \<and> js_fallback_slug ''a\<newline>b.jpg'' = ''a-b''
   \<and> slugFor (local_photo ''a\<newline>b.jpg'' None) = ''a-b''
   \<and> map e_slug (photos (json (files (final
         (process_photos race [] (folder [(''a\<newline>b.jpg'', jpeg_file)]))))))
       = [Some ''a\<newline>b'']"
  by code_simp

section \<open>The lightbox\<close>


lemma findIndex_first:
  "i < length xs \<Longrightarrow> P (xs ! i) \<Longrightarrow>
     0 \<le> findIndex P xs \<and> findIndex P xs \<le> int i \<and> P (xs ! nat (findIndex P xs))"
proof (induction xs arbitrary: i)
  case Nil
  then show ?case by simp
next
  case (Cons x xs)
  show ?case
  proof (cases "P x")
    case True
    then show ?thesis by simp
  next
    case False
    with Cons.prems obtain j where j: "i = Suc j" by (cases i) auto
    with Cons.prems have "j < length xs" and "P (xs ! j)" by auto
    from Cons.IH [OF this]
    have ih: "0 \<le> findIndex P xs \<and> findIndex P xs \<le> int j \<and> P (xs ! nat (findIndex P xs))" .
    then have "nat (findIndex P xs + 1) = Suc (nat (findIndex P xs))" by arith
    with ih False j show ?thesis by (simp add: Let_def)
  qed
qed

lemma findIndex_distinct:
  "distinct (map f xs) \<Longrightarrow> i < length xs \<Longrightarrow> findIndex (\<lambda>x. f x = f (xs ! i)) xs = int i"
proof (induction xs arbitrary: i)
  case Nil
  then show ?case by simp
next
  case (Cons x xs)
  show ?case
  proof (cases i)
    case 0
    then show ?thesis by simp
  next
    case (Suc j)
    with Cons.prems have j: "j < length xs" by simp
    with Cons.prems have "f x \<noteq> f (xs ! j)" by (auto simp add: image_iff)
    moreover from Cons.prems j have "findIndex (\<lambda>y. f y = f (xs ! j)) xs = int j"
      using Cons.IH by simp
    ultimately show ?thesis using Suc by (simp add: Let_def)
  qed
qed

lemma lb_photos_preload: "lb_photos (preload i st) = lb_photos st"
  by (simp add: preload_def)

lemma hash_preload: "location_hash (preload i st) = location_hash st"
  by (simp add: preload_def)

lemma currentIndex_preload: "currentIndex (preload i st) = currentIndex st"
  by (simp add: preload_def)

lemma src_preload: "photo_src (preload i st) = photo_src st"
  by (simp add: preload_def)

lemma lb_photos_show: "lb_photos (show_photo i st) = lb_photos st"
  by (simp add: show_photo_def Let_def lb_photos_preload setHash_def clearHash_def)

lemma currentIndex_show:
  "currentIndex (show_photo i st) = (if in_range i st then i else currentIndex st)"
  by (auto simp add: show_photo_def Let_def in_range_def currentIndex_preload setHash_def clearHash_def)

lemma hash_show_local:
  "in_range i st \<Longrightarrow> isLocal (lb_photos st ! nat i) \<Longrightarrow>
     location_hash (show_photo i st) = ''#photo='' @ slugFor (lb_photos st ! nat i)"
  by (auto simp add: show_photo_def Let_def in_range_def hash_preload setHash_def)

lemma src_show:
  "in_range i st \<Longrightarrow> photo_src (show_photo i st) = image_url (lb_photos st ! nat i)"
  by (auto simp add: show_photo_def Let_def in_range_def src_preload setHash_def clearHash_def)

text \<open>
  C9. For every integer index outside the range of the photo list,
  \<^verbatim>\<open>show\<close> and \<^verbatim>\<open>preload\<close> return the state as it was (current index,
  displayed photo, hash and all the rest); so Prev on the first photo and Next
  on the last photo change nothing, and a current index that is within range
  stays within range under \<^verbatim>\<open>show\<close> of any index and under both buttons.
\<close>

theorem navigation_bounds_safe:
  "(\<not> in_range i st \<longrightarrow> show_photo i st = st \<and> preload i st = st)
   \<and> (currentIndex st = 0 \<longrightarrow> lightboxPrev st = st)
   \<and> (currentIndex st = int (length (lb_photos st)) - 1 \<longrightarrow> lightboxNext st = st)
   \<and> (in_range (currentIndex st) st \<longrightarrow>
        in_range (currentIndex (show_photo i st)) (show_photo i st)
        \<and> in_range (currentIndex (lightboxPrev st)) (lightboxPrev st)
        \<and> in_range (currentIndex (lightboxNext st)) (lightboxNext st))"
proof -
  have 1: "\<not> in_range i st \<longrightarrow> show_photo i st = st \<and> preload i st = st"
    by (auto simp add: in_range_def show_photo_def preload_def)
  have 2: "currentIndex st = 0 \<longrightarrow> lightboxPrev st = st"
    by (simp add: lightboxPrev_def show_photo_def)
  have 3: "currentIndex st = int (length (lb_photos st)) - 1 \<longrightarrow> lightboxNext st = st"
    by (simp add: lightboxNext_def show_photo_def)
  have 4: "in_range (currentIndex st) st \<longrightarrow> in_range (currentIndex (show_photo j st)) (show_photo j st)" for j
    by (simp add: in_range_def lb_photos_show currentIndex_show)
  from 1 2 3 4 show ?thesis by (simp add: lightboxPrev_def lightboxNext_def)
qed

theorem navigation_bounds_safe_witness:
  "\<not> in_range (- 1) viewer_first \<and> show_photo (- 1) viewer_first = viewer_first
   \<and> preload (- 1) viewer_first = viewer_first
   \<and> currentIndex viewer_first = 0 \<and> lightboxPrev viewer_first = viewer_first
   \<and> currentIndex viewer_last = int (length (lb_photos viewer_last)) - 1
   \<and> lightboxNext viewer_last = viewer_last
   \<and> in_range (currentIndex viewer_first) viewer_first
   \<and> in_range (currentIndex (lightboxNext viewer_first)) (lightboxNext viewer_first)
   \<and> currentIndex (lightboxNext viewer_first) = 1"
proof -
  have h1: "\<not> in_range (- 1) viewer_first" by code_simp
  have h2: "currentIndex viewer_first = 0" by code_simp
  have h3: "currentIndex viewer_last = int (length (lb_photos viewer_last)) - 1" by code_simp
  have h4: "in_range (currentIndex viewer_first) viewer_first" by code_simp
  have h5: "currentIndex (lightboxNext viewer_first) = 1" by code_simp
  from navigation_bounds_safe [of "- 1" viewer_first] navigation_bounds_safe [of "- 1" viewer_last]
    h1 h2 h3 h4 h5
  show ?thesis by simp
qed

text \<open>
  C5 (amended). For a photo list whose slugs are pairwise distinct and every
  index \<open>i\<close> into it, looking up the slug of the photo at \<open>i\<close> returns \<open>i\<close>,
  and loading the page with the hash \<^verbatim>\<open>#photo=\<close> followed by that slug opens
  the lightbox on that photo; and when \<^verbatim>\<open>show\<close> displays a local photo, the
  hash of the address bar is \<^verbatim>\<open>#photo=\<close> followed by the slug of that photo.
\<close>

theorem deep_link_round_trip:
  assumes "distinct (map slugFor ps)" and "i < length ps"
  shows "indexBySlug ps (slugFor (ps ! i)) = int i
    \<and> currentIndex (init ps (''#photo='' @ slugFor (ps ! i))) = int i
    \<and> modal_shown (init ps (''#photo='' @ slugFor (ps ! i)))
    \<and> photo_src (init ps (''#photo='' @ slugFor (ps ! i))) = image_url (ps ! i)
    \<and> (lb_photos st = ps \<and> isLocal (ps ! i) \<longrightarrow>
         location_hash (show_photo (int i) st) = ''#photo='' @ slugFor (ps ! i))"
proof -
  have idx: "indexBySlug ps (slugFor (ps ! i)) = int i"
    using assms by (simp add: indexBySlug_def findIndex_distinct)
  let ?st0 = "\<lparr>lb_photos = ps, currentIndex = 0, suppressHashChange = False,
       location_hash = ''#photo='' @ slugFor (ps ! i), photo_src = [], photo_alt = [],
       photo_crossorigin = False, caption_text = [], prev_visible = True,
       next_visible = True, preloaded = [], modal_shown = False\<rparr>"
  have r: "in_range (int i) ?st0" using assms(2) by (simp add: in_range_def)
  have "init ps (''#photo='' @ slugFor (ps ! i)) = open_photo (int i) ?st0"
    using idx by (simp add: init_def checkHash_def starts_with_def Let_def)
  then have "currentIndex (init ps (''#photo='' @ slugFor (ps ! i))) = int i"
    and "modal_shown (init ps (''#photo='' @ slugFor (ps ! i)))"
    and "photo_src (init ps (''#photo='' @ slugFor (ps ! i))) = image_url (ps ! i)"
    using r by (simp_all add: open_photo_def currentIndex_show src_show)
  moreover have "lb_photos st = ps \<and> isLocal (ps ! i) \<longrightarrow>
         location_hash (show_photo (int i) st) = ''#photo='' @ slugFor (ps ! i)"
    using assms(2) hash_show_local [of "int i" st] by (auto simp add: in_range_def)
  ultimately show ?thesis using idx by simp
qed

theorem deep_link_round_trip_witness:
  "distinct (map slugFor two_photos) \<and> 1 < length two_photos
   \<and> indexBySlug two_photos (slugFor (two_photos ! 1)) = 1
   \<and> slugFor (two_photos ! 1) = ''b-2''
   \<and> currentIndex viewer_last = 1 \<and> modal_shown viewer_last
   \<and> lb_photos viewer_first = two_photos \<and> isLocal (two_photos ! 1)
   \<and> location_hash (show_photo 1 viewer_first) = ''#photo=b-2''"
proof -
  have h1: "distinct (map slugFor two_photos)" by code_simp
  have h2: "1 < length two_photos" by code_simp
  have h3: "slugFor (two_photos ! 1) = ''b-2''" by code_simp
  have h4: "lb_photos viewer_first = two_photos" by code_simp
  have h5: "isLocal (two_photos ! 1)" by code_simp
  from deep_link_round_trip [OF h1 h2, of viewer_first] h1 h2 h3 h4 h5
  show ?thesis by (simp add: viewer_last_def)
qed

text \<open>
  C5 as stated fails when two photos have the same slug: \<^verbatim>\<open>findIndex\<close> returns the
  first of them, so the slug of the second photo leads to index 0.
\<close>

theorem deep_link_counterexample:
  "slugFor (same_slug_photos ! 1) = ''a''
   \<and> indexBySlug same_slug_photos (slugFor (same_slug_photos ! 1)) = 0
   \<and> currentIndex (init same_slug_photos (''#photo='' @ slugFor (same_slug_photos ! 1))) = 0"
  by code_simp

section \<open>Album ids\<close>


lemma unique_id_loop_spec:
  "unique_id_loop ids ident u c \<notin> set ids \<and>
   (unique_id_loop ids ident u c = u \<or>
    (u \<in> set ids \<and> (\<exists>k\<ge>c. unique_id_loop ids ident u c = ident @ ''-'' @ dec k \<and>
        (\<forall>j. c \<le> j \<and> j < k \<longrightarrow> ident @ ''-'' @ dec j \<in> set ids))))"
proof (induction ids ident u c rule: unique_id_loop.induct)
  case (1 ids ident uniqueId counter)
  show ?case
  proof (cases "uniqueId \<in> set ids")
    case False
    then show ?thesis by (simp add: unique_id_loop.simps [of ids ident uniqueId counter])
  next
    case True
    let ?r = "unique_id_loop ids ident (ident @ ''-'' @ dec counter) (counter + 1)"
    have eq: "unique_id_loop ids ident uniqueId counter = ?r"
      using True by (simp add: unique_id_loop.simps [of ids ident uniqueId counter])
    from 1 [OF True] have fresh: "?r \<notin> set ids"
      and shape: "?r = ident @ ''-'' @ dec counter \<or>
        (ident @ ''-'' @ dec counter \<in> set ids \<and> (\<exists>k\<ge>counter + 1. ?r = ident @ ''-'' @ dec k \<and>
        (\<forall>j. counter + 1 \<le> j \<and> j < k \<longrightarrow> ident @ ''-'' @ dec j \<in> set ids)))"
      by auto
    from shape have "\<exists>k\<ge>counter. ?r = ident @ ''-'' @ dec k \<and>
        (\<forall>j. counter \<le> j \<and> j < k \<longrightarrow> ident @ ''-'' @ dec j \<in> set ids)"
    proof
      assume "?r = ident @ ''-'' @ dec counter"
      then show ?thesis by (intro exI [of _ counter]) auto
    next
      assume "ident @ ''-'' @ dec counter \<in> set ids \<and> (\<exists>k\<ge>counter + 1. ?r = ident @ ''-'' @ dec k \<and>
        (\<forall>j. counter + 1 \<le> j \<and> j < k \<longrightarrow> ident @ ''-'' @ dec j \<in> set ids))"
      then obtain k where c: "ident @ ''-'' @ dec counter \<in> set ids" and k: "counter + 1 \<le> k"
        and r: "?r = ident @ ''-'' @ dec k"
        and below: "\<forall>j. counter + 1 \<le> j \<and> j < k \<longrightarrow> ident @ ''-'' @ dec j \<in> set ids"
        by blast
      have "\<forall>j. counter \<le> j \<and> j < k \<longrightarrow> ident @ ''-'' @ dec j \<in> set ids"
      proof (intro allI impI)
        fix j assume j: "counter \<le> j \<and> j < k"
        show "ident @ ''-'' @ dec j \<in> set ids"
        proof (cases "j = counter")
          case True
          with c show ?thesis by simp
        next
          case False
          with j have "counter + 1 \<le> j \<and> j < k" by simp
          with below show ?thesis by blast
        qed
      qed
      with k r show ?thesis by (intro exI [of _ k]) simp
    qed
    with fresh True eq show ?thesis by simp
  qed
qed

text \<open>
  C10. \<^verbatim>\<open>saveAlbum\<close> keeps the album ids pairwise distinct. When it creates an
  album, the new album is appended, and its id is the slug of the title (or
  \<^verbatim>\<open>album-\<close> and the clock when that slug is empty) if no album has that id,
  otherwise that text followed by a hyphen and the first number from 2 on
  for which no album has the resulting id; no existing album has the new id.
\<close>

theorem album_ids_unique:
  assumes "saveAlbum form st = Some st'"
  shows "(distinct (map a_id (albums st)) \<longrightarrow> distinct (map a_id (albums st')))
    \<and> (f_title form \<noteq> [] \<and> editingAlbumIndex st < 0 \<longrightarrow>
         albums st' \<noteq> [] \<and> butlast (albums st') = albums st
         \<and> a_id (last (albums st')) \<notin> set (map a_id (albums st))
         \<and> (a_id (last (albums st')) = album_ident form \<or>
              (album_ident form \<in> set (map a_id (albums st)) \<and>
               (\<exists>k\<ge>2. a_id (last (albums st')) = album_ident form @ ''-'' @ dec k \<and>
                  (\<forall>j. 2 \<le> j \<and> j < k \<longrightarrow>
                     album_ident form @ ''-'' @ dec j \<in> set (map a_id (albums st)))))))"
proof -
  have fresh: "new_album_id (albums st) form \<notin> set (map a_id (albums st))"
    unfolding new_album_id_def using unique_id_loop_spec by blast
  have shape: "new_album_id (albums st) form = album_ident form \<or>
       (album_ident form \<in> set (map a_id (albums st)) \<and>
        (\<exists>k\<ge>2. new_album_id (albums st) form = album_ident form @ ''-'' @ dec k \<and>
           (\<forall>j. 2 \<le> j \<and> j < k \<longrightarrow>
              album_ident form @ ''-'' @ dec j \<in> set (map a_id (albums st)))))"
    unfolding new_album_id_def
    using unique_id_loop_spec [of "map a_id (albums st)" "album_ident form" "album_ident form" 2]
    by blast
  show ?thesis
  proof (cases "f_title form = []")
    case True
    with assms have "albums st' = albums st" by (auto simp add: saveAlbum_def)
    with True show ?thesis by simp
  next
    case False
    show ?thesis
    proof (cases "editingAlbumIndex st \<ge> 0")
      case True
      with False assms have "map a_id (albums st') = map a_id (albums st)"
        by (auto simp add: saveAlbum_def Let_def map_update list_update_same_conv split: if_splits)
      with True show ?thesis by simp
    next
      case neg: False
      define a where "a = \<lparr>a_id = new_album_id (albums st) form, a_title = f_title form,
          a_description = f_description form,
          a_cover = (if f_cover form \<noteq> [] then f_cover form
                     else if selectedPhotos st \<noteq> [] then hd (selectedPhotos st) else []),
          a_photos = selectedPhotos st\<rparr>"
      from neg False assms have app: "albums st' = albums st @ [a]"
        by (auto simp add: saveAlbum_def Let_def a_def)
      have ida: "a_id a = new_album_id (albums st) form" by (simp add: a_def)
      from app have l: "last (albums st') = a" "butlast (albums st') = albums st" "albums st' \<noteq> []"
        by simp_all
      from app fresh ida have d: "distinct (map a_id (albums st)) \<longrightarrow> distinct (map a_id (albums st'))"
        by simp
      from fresh shape show ?thesis
        unfolding l(1) l(2) ida using d l(3) by blast
    qed
  qed
qed

theorem album_ids_unique_witness:
  "saveAlbum trip_form trip_albums = Some (the (saveAlbum trip_form trip_albums))
   \<and> distinct (map a_id (albums trip_albums))
   \<and> f_title trip_form \<noteq> [] \<and> editingAlbumIndex trip_albums < 0
   \<and> map a_id (albums (the (saveAlbum trip_form trip_albums))) = [''trip'', ''trip-2'', ''trip-3'']
   \<and> distinct (map a_id (albums (the (saveAlbum trip_form trip_albums))))"
proof -
  have h0: "map a_id (albums (the (saveAlbum trip_form trip_albums))) = [''trip'', ''trip-2'', ''trip-3'']"
    by code_simp
  have h1: "saveAlbum trip_form trip_albums = Some (the (saveAlbum trip_form trip_albums))"
    by code_simp
  have h2: "distinct (map a_id (albums trip_albums))" by code_simp
  have h3: "f_title trip_form \<noteq> []" by code_simp
  have h4: "editingAlbumIndex trip_albums < 0" by code_simp
  from album_ids_unique [OF h1] h2
  have "distinct (map a_id (albums (the (saveAlbum trip_form trip_albums))))"
    by blast
  with h0 h1 h2 h3 h4 show ?thesis by blast
qed

section \<open>What a run of process-photos.sh does to the manifest\<close>

lemma process_named_adds:
  "\<exists>A. manifest_photos (final (process_named r c k n i st)) = A @ manifest_photos st
     \<and> manifest_profile (final (process_named r c k n i st)) = manifest_profile st"
  by (auto simp add: process_named_def manifest_photos_def manifest_profile_def say_def
      prepend_entry_def)

lemma process_file_adds:
  "\<exists>A. manifest_photos (final (process_file r c k n st)) = A @ manifest_photos st
     \<and> manifest_profile (final (process_file r c k n st)) = manifest_profile st"
proof -
  have a: "manifest_photos (say ms (set_originals d st)) = manifest_photos st
    \<and> manifest_profile (say ms (set_originals d st)) = manifest_profile st" for ms d
    by (simp add: manifest_photos_def manifest_profile_def say_def set_originals_def)
  show ?thesis
    using process_named_adds [of r c k _ _ st]
      process_named_adds [of r c k _ _ "say ms (set_originals d st)" for ms d]
    by (auto simp add: process_file_def Let_def a split: option.splits)
qed

lemma for_each_file_adds:
  "\<exists>A. manifest_photos (final (for_each_file r c k ns st)) = A @ manifest_photos st
     \<and> manifest_profile (final (for_each_file r c k ns st)) = manifest_profile st"
proof (induction ns arbitrary: st)
  case Nil
  then show ?case by simp
next
  case (Cons n ns)
  obtain A where A: "manifest_photos (final (process_file r c k n st)) = A @ manifest_photos st"
    "manifest_profile (final (process_file r c k n st)) = manifest_profile st"
    using process_file_adds by blast
  show ?case
  proof (cases "process_file r c k n st")
    case (Aborted st')
    with A show ?thesis by auto
  next
    case (Done st')
    obtain B where B: "manifest_photos (final (for_each_file r c k ns st')) = B @ manifest_photos st'"
      "manifest_profile (final (for_each_file r c k ns st')) = manifest_profile st'"
      using Cons.IH by blast
    from A B Done have "manifest_photos (final (for_each_file r c k (n # ns) st)) = (B @ A) @ manifest_photos st"
      "manifest_profile (final (for_each_file r c k (n # ns) st)) = manifest_profile st"
      by auto
    then show ?thesis by blast
  qed
qed

lemma mset_sort_newest_first: "mset (sort_newest_first es) = mset es"
  by (simp add: sort_newest_first_def)

lemma finish_photos:
  "mset (manifest_photos (finish st)) = mset (manifest_photos st)
   \<and> manifest_profile (finish st) = manifest_profile st"
  by (auto simp add: finish_def write_sitemap_def say_def sort_photos_def manifest_photos_def
      manifest_profile_def mset_sort_newest_first split: option.splits)

lemma process_photos_adds:
  "\<exists>A. mset (photos (json (files (final (process_photos r c s))))) = mset A + mset (photos (json s))
     \<and> profile (json (files (final (process_photos r c s)))) = profile (json s)"
proof -
  let ?r = "for_each_file r c (known_files (json s)) (glob_originals (originals s)) (start s)"
  obtain A where A: "manifest_photos (final ?r) = A @ manifest_photos (start s)"
    "manifest_profile (final ?r) = manifest_profile (start s)"
    using for_each_file_adds by blast
  have s: "manifest_photos (start s) = photos (json s)" "manifest_profile (start s) = profile (json s)"
    by (simp_all add: manifest_photos_def manifest_profile_def start_def)
  show ?thesis
  proof (cases ?r)
    case (Aborted st')
    with A s have "mset (photos (json (files (final (process_photos r c s))))) = mset A + mset (photos (json s))"
      "profile (json (files (final (process_photos r c s)))) = profile (json s)"
      by (simp_all add: process_photos_def manifest_photos_def manifest_profile_def)
    then show ?thesis by blast
  next
    case (Done st')
    with A s finish_photos [of st']
    have "mset (photos (json (files (final (process_photos r c s))))) = mset A + mset (photos (json s))"
      "profile (json (files (final (process_photos r c s)))) = profile (json s)"
      by (simp_all add: process_photos_def manifest_photos_def manifest_profile_def)
    then show ?thesis by blast
  qed
qed

text \<open>
  C6. A run of process-photos.sh only adds photo entries: every entry of the
  \<^verbatim>\<open>photos\<close> array before the run is in the array after the run, unchanged and
  at least as often as before (the position may differ), and the \<^verbatim>\<open>profile\<close> object is
  the same. This holds whether the run completes or is ended by a failing
  command, and however the race of the test for known files ends.
\<close>

theorem manifest_frame:
  "mset (photos (json s)) \<subseteq># mset (photos (json (files (final (process_photos r c s)))))
   \<and> profile (json (files (final (process_photos r c s)))) = profile (json s)"
  using process_photos_adds [of r c s] by auto

theorem manifest_frame_witness:
  "mset (photos (json after_first_run))
     \<subseteq># mset (photos (json (files (final (process_photos never [] after_first_run)))))
   \<and> length (photos (json after_first_run)) = 2
   \<and> profile (json (files (final (process_photos never [] after_first_run)))) = []"
proof -
  have h: "length (photos (json after_first_run)) = 2 \<and> profile (json after_first_run) = []"
    by code_simp
  from manifest_frame [where s = after_first_run and r = never and c = "[]"] h
  show ?thesis by simp
qed

section \<open>Sanitized names\<close>

lemma spaces_to_hyphens_no_nl: "nl \<notin> set (spaces_to_hyphens l)"
  by (auto simp add: spaces_to_hyphens_def is_space_def nl_def hyphen_def less_eq_char_def)

lemma special_to_hyphens_no_nl: "nl \<notin> set (special_to_hyphens l)"
  by (auto simp add: special_to_hyphens_def name_char_def nl_def hyphen_def dot_def
      is_lower_def is_upper_def is_digit_def less_eq_char_def)

lemma clean_no_nl: "nl \<notin> set (clean n)"
  using set_trim_hyphens set_collapse special_to_hyphens_no_nl
  unfolding clean_def by blast

lemma sanitize_line:
  assumes "nl \<notin> set n" and "\<not> is_echo_option n"
  shows "sanitize n = clean n"
proof -
  have 0: "echo n = n @ [nl]" using assms(2) by (simp add: echo_def)
  have 1: "sed spaces_to_hyphens (n @ [nl]) = spaces_to_hyphens n @ [nl]"
    using assms(1) by (rule sed_single)
  have 2: "sed special_to_hyphens (spaces_to_hyphens n @ [nl])
      = special_to_hyphens (spaces_to_hyphens n) @ [nl]"
    using spaces_to_hyphens_no_nl by (rule sed_single)
  have 3: "sed collapse (special_to_hyphens (spaces_to_hyphens n) @ [nl])
      = collapse (special_to_hyphens (spaces_to_hyphens n)) @ [nl]"
    using special_to_hyphens_no_nl by (rule sed_single)
  have c: "nl \<notin> set (collapse (special_to_hyphens (spaces_to_hyphens n)))"
    using set_collapse special_to_hyphens_no_nl by blast
  have 4: "sed trim_hyphens (collapse (special_to_hyphens (spaces_to_hyphens n)) @ [nl])
      = clean n @ [nl]"
    unfolding clean_def using c by (rule sed_single)
  have 5: "cmd_subst (clean n @ [nl]) = clean n"
    using clean_no_nl by (rule cmd_subst_single)
  show ?thesis unfolding sanitize_def 0 1 2 3 4 5 ..
qed

lemma sanitize_echo_option: "is_echo_option n \<Longrightarrow> sanitize n = []"
  by (simp add: sanitize_def echo_def sed_def lines_of_def cmd_subst_def
      spaces_to_hyphens_def special_to_hyphens_def trim_hyphens_def trim_lead_def trim_trail_def)

lemma sanitize_no_nl: "nl \<notin> set n \<Longrightarrow> nl \<notin> set (sanitize n)"
  using sanitize_line [of n] sanitize_echo_option [of n] clean_no_nl [of n]
  by (cases "is_echo_option n") auto

lemma hd_collapse_aux: "collapse (a # l) \<noteq> [] \<and> hd (collapse (a # l)) = a"
proof (induction l arbitrary: a)
  case Nil
  then show ?case by simp
next
  case (Cons d cs)
  from Cons [of d] show ?case by auto
qed

lemma hd_collapse: "collapse (a # l) = b # r \<Longrightarrow> b = a"
  using hd_collapse_aux [of a l] by simp

lemma collapse_no_double: "collapse x = c # d # cs \<Longrightarrow> c = hyphen \<Longrightarrow> d \<noteq> hyphen"
proof (induction x arbitrary: c d cs rule: collapse.induct)
  case 1
  then show ?case by simp
next
  case (2 a)
  then show ?case by simp
next
  case (3 a b l)
  show ?case
  proof (cases "a = hyphen \<and> b = hyphen")
    case True
    with 3 show ?thesis by simp
  next
    case False
    with "3.prems" have e: "c = a" "collapse (b # l) = d # cs" by auto
    then have "d = b" by (simp add: hd_collapse)
    with False e "3.prems" show ?thesis by simp
  qed
qed

lemma trim_collapse_head: "\<not> starts_with (trim_hyphens (collapse x)) ''-''"
proof (cases "collapse x")
  case Nil
  then show ?thesis by (simp add: trim_hyphens_def trim_lead_def trim_trail_def starts_with_def)
next
  case (Cons c r)
  note c1 = this
  show ?thesis
  proof (cases r)
    case Nil
    with c1 show ?thesis
      by (simp add: trim_hyphens_def trim_lead_def trim_trail_def starts_with_def hyphen_def)
  next
    case (Cons d cs)
    with c1 have "c = hyphen \<Longrightarrow> d \<noteq> hyphen" using collapse_no_double by blast
    with c1 Cons show ?thesis
      by (cases cs) (auto simp add: trim_hyphens_def trim_lead_def trim_trail_def starts_with_def hyphen_def)
  qed
qed

lemma sanitize_head: "nl \<notin> set n \<Longrightarrow> \<not> starts_with (sanitize n) ''-''"
  using sanitize_line [of n] sanitize_echo_option [of n] trim_collapse_head
  by (cases "is_echo_option n") (auto simp add: clean_def starts_with_def)

lemma dec_no_nl: "nl \<notin> set (dec k)"
proof (induction k rule: dec.induct)
  case (1 n)
  have d: "digit_char m \<noteq> nl" if "m < 10" for m
  proof
    assume "digit_char m = nl"
    then have "(of_char (digit_char m) :: nat) = of_char nl" by simp
    with that show False by (simp add: digit_char_def nl_def)
  qed
  show ?case
  proof (cases "n < 10")
    case True
    then show ?thesis using d [of n] by (simp add: dec.simps [of n])
  next
    case False
    with 1 have "nl \<notin> set (dec (n div 10))" by simp
    with False d [of "n mod 10"] show ?thesis by (simp add: dec.simps [of n])
  qed
qed

lemma split_at_last_dot: "dot \<in> set s \<Longrightarrow> s = strip_last_ext s @ dot # last_ext s"
proof -
  assume a: "dot \<in> set s"
  let ?P = "\<lambda>c. c \<noteq> dot"
  have "dropWhile ?P (rev s) \<noteq> []" using a by (simp add: dropWhile_eq_Nil_conv)
  moreover have "hd (dropWhile ?P (rev s)) = dot"
    using a hd_dropWhile [of ?P "rev s"] by (simp add: dropWhile_eq_Nil_conv)
  ultimately have d: "dropWhile ?P (rev s) = dot # tl (dropWhile ?P (rev s))"
    by (cases "dropWhile ?P (rev s)") auto
  have "rev s = takeWhile ?P (rev s) @ dropWhile ?P (rev s)" by simp
  then have "rev s = takeWhile ?P (rev s) @ dot # tl (dropWhile ?P (rev s))" using d by simp
  then have "rev (rev s) = rev (takeWhile ?P (rev s) @ dot # tl (dropWhile ?P (rev s)))" by simp
  then show ?thesis using a by (simp add: strip_last_ext_def last_ext_def)
qed

lemma set_last_ext: "set (last_ext x) \<subseteq> set x"
  by (auto simp add: last_ext_def dest: set_takeWhileD)

lemma free_counter_free:
  "base @ ''-'' @ dec (free_counter names base ext_s c) @ ''.'' @ ext_s \<notin> set names"
proof (induction names base ext_s c rule: free_counter.induct)
  case (1 names base ext_s counter)
  then show ?case by (simp add: free_counter.simps [of names base ext_s counter])
qed

lemma rename_target_fresh: "rename_target dir s \<notin> set (map fst dir)"
  using free_counter_free [where base = "strip_last_ext s" and names = "map fst dir" and c = 1 and ext_s = "last_ext s"]
  by (simp add: rename_target_def is_file_def Let_def)

lemma rename_target_no_nl: "nl \<notin> set s \<Longrightarrow> nl \<notin> set (rename_target dir s)"
  using set_strip_last_ext [of s] set_last_ext [of s] dec_no_nl
  by (auto simp add: rename_target_def Let_def nl_def)

lemma rename_target_head:
  assumes "strip_last_ext s \<noteq> []" and "\<not> starts_with s ''-''"
  shows "\<not> starts_with (rename_target dir s) ''-''"
proof (cases "is_file dir s")
  case False
  with assms show ?thesis by (simp add: rename_target_def)
next
  case True
  have "hd (strip_last_ext s) = hd s"
  proof (cases "dot \<in> set s")
    case True
    then have "s = strip_last_ext s @ dot # last_ext s" by (rule split_at_last_dot)
    with assms(1) show ?thesis by (metis hd_append2)
  next
    case False
    then show ?thesis by (simp add: strip_last_ext_def)
  qed
  moreover from assms have "s \<noteq> []" by (auto simp add: strip_last_ext_def)
  ultimately show ?thesis using True assms
    by (cases "strip_last_ext s"; cases s) (auto simp add: rename_target_def Let_def starts_with_def)
qed

section \<open>The test for a file that is already tracked\<close>

lemma split_nl_nonempty: "split_nl x \<noteq> []"
  by (induction x) (auto split: list.splits)

lemma split_nl_append: "split_nl (x @ nl # y) = split_nl x @ split_nl y"
proof (induction x)
  case Nil
  then show ?case by simp
next
  case (Cons c x)
  then show ?case using split_nl_nonempty [of x] by (cases "split_nl x") (auto)
qed

lemma in_split_concat:
  "g \<in> set fs \<Longrightarrow> nl \<notin> set g \<Longrightarrow> g \<in> set (split_nl (concat (map (\<lambda>f. f @ [nl]) fs)))"
proof (induction fs)
  case Nil
  then show ?case by simp
next
  case (Cons f fs)
  have "concat (map (\<lambda>f. f @ [nl]) (f # fs)) = f @ nl # concat (map (\<lambda>f. f @ [nl]) fs)"
    by simp
  then have e: "split_nl (concat (map (\<lambda>f. f @ [nl]) (f # fs)))
      = split_nl f @ split_nl (concat (map (\<lambda>f. f @ [nl]) fs))"
    by (simp only: split_nl_append)
  show ?case
  proof (cases "g = f")
    case True
    with Cons.prems have "split_nl f = [g]" by (simp add: split_nl_no_nl)
    with e show ?thesis by simp
  next
    case False
    with Cons have "g \<in> set (split_nl (concat (map (\<lambda>f. f @ [nl]) fs)))" by simp
    with e show ?thesis by simp
  qed
qed

lemma split_nl_newlines: "set (split_nl (replicate j nl)) \<subseteq> {[]}"
  by (induction j) auto

lemma split_strip:
  "g \<in> set (split_nl (K @ replicate j nl)) \<Longrightarrow> g \<noteq> [] \<Longrightarrow> g \<in> set (split_nl K)"
proof (cases j)
  case 0
  assume "g \<in> set (split_nl (K @ replicate j nl))"
  with 0 show ?thesis by simp
next
  case (Suc i)
  assume a: "g \<in> set (split_nl (K @ replicate j nl))" and b: "g \<noteq> []"
  have "split_nl (K @ replicate j nl) = split_nl K @ split_nl (replicate i nl)"
    using Suc split_nl_append [of K "replicate i nl"] by simp
  with a b split_nl_newlines [of i] show ?thesis by auto
qed

lemma cmd_subst_decompose: "\<exists>j. S = cmd_subst S @ replicate j nl"
proof -
  let ?P = "\<lambda>c. c = nl"
  define t where "t = takeWhile ?P (rev S)"
  have "rev S = t @ dropWhile ?P (rev S)" by (simp add: t_def)
  then have "rev (rev S) = rev (t @ dropWhile ?P (rev S))" by simp
  then have 1: "S = rev (dropWhile ?P (rev S)) @ rev t" by simp
  have "\<forall>c\<in>set t. c = nl" by (auto simp add: t_def dest: set_takeWhileD)
  then have "t = replicate (length t) nl" by (simp add: replicate_length_same)
  then have "rev t = replicate (length t) nl" by (metis rev_replicate)
  with 1 have "S = cmd_subst S @ replicate (length t) nl"
    by (simp add: cmd_subst_def)
  then show ?thesis ..
qed

lemma echo_option_shape:
  assumes "is_echo_option K"
  shows "nl \<notin> set K \<and> starts_with K ''-''"
proof (cases K)
  case Nil
  with assms show ?thesis by (simp add: is_echo_option_def)
next
  case (Cons c cs)
  with assms have c: "c = hyphen" and cs: "\<forall>x\<in>set cs. x \<in> set ''neE''"
    by (simp_all add: is_echo_option_def)
  have "x \<noteq> nl" if "x \<in> set ''neE''" for x
    using that by (auto simp add: nl_def)
  with cs have "nl \<notin> set cs" by blast
  with c Cons show ?thesis by (simp add: starts_with_def hyphen_def nl_def)
qed

lemma lines_of_echo:
  assumes "g \<in> set (split_nl K)" and "g \<noteq> []" and "\<not> starts_with g ''-''"
  shows "g \<in> set (lines_of (echo K))"
proof -
  have no: "\<not> is_echo_option K"
  proof
    assume o: "is_echo_option K"
    then have "nl \<notin> set K" and s: "starts_with K ''-''"
      using echo_option_shape by blast+
    then have "split_nl K = [K]" by (simp add: split_nl_no_nl)
    with assms(1) have "g = K" by simp
    with s assms(3) show False by simp
  qed
  have "split_nl (K @ [nl]) = split_nl K @ [Nil]"
    using split_nl_append [of K "[]"] by simp
  then have "lines_of (K @ [nl]) = split_nl K"
    by (simp add: lines_of_def)
  with no assms(1) show ?thesis by (simp add: echo_def)
qed

lemma grep_sound:
  assumes "g \<in> set (map e_filename (photos m))" and "nl \<notin> set g" and "g \<noteq> []"
    and "\<not> starts_with g ''-''"
  shows "grep_qxF g (known_files m)"
proof -
  let ?S = "concat (map (\<lambda>e. e_filename e @ [nl]) (photos m))"
  have "?S = concat (map (\<lambda>f. f @ [nl]) (map e_filename (photos m)))"
    by (simp add: comp_def)
  with assms(1,2) have "g \<in> set (split_nl ?S)"
    using in_split_concat [of g "map e_filename (photos m)"] by simp
  moreover obtain j where "?S = cmd_subst ?S @ replicate j nl"
    using cmd_subst_decompose by blast
  ultimately have 1: "g \<in> set (split_nl (cmd_subst ?S @ replicate j nl))" by simp
  have 2: "g \<in> set (split_nl (known_files m))"
    unfolding known_files_def using 1 assms(3) by (rule split_strip)
  have "g \<in> set (lines_of (echo (known_files m)))"
    using 2 assms(3,4) by (rule lines_of_echo)
  moreover have "split_nl g = [g]" using assms(2) by (rule split_nl_no_nl)
  ultimately show ?thesis using assms(4) by (auto simp add: grep_qxF_def)
qed

lemma known_test_uncut:
  assumes "uncut r k" and "nl \<notin> set g"
  shows "known_test r g k = grep_qxF g k"
proof (cases "grep_qxF g k")
  case False
  then show ?thesis by (simp add: known_test_def)
next
  case True
  from assms(2) have "split_nl g = [g]" by (rule split_nl_no_nl)
  with True have "g \<in> set (lines_of (echo k))"
    by (auto simp add: grep_qxF_def split: if_splits)
  with assms(1) have "\<not> pipe_cut r k g" by (simp add: uncut_def)
  with True show ?thesis by (simp add: known_test_def)
qed

lemma supported_nonempty: "supported n \<Longrightarrow> n \<noteq> []"
proof
  assume "supported n" and "n = []"
  then have "supported []" by simp
  moreover have "\<not> supported []" by code_simp
  ultimately show False by simp
qed

lemma not_supported_dotdot: "\<not> supported ''..''"
  by code_simp

section \<open>Renaming in the folder\<close>

lemma names_rename_file:
  "map fst (rename_file old new dir) = map (\<lambda>x. if x = old then new else x) (map fst dir)"
  by (induction dir) (auto simp add: rename_file_def)

lemma names_remove_file: "map fst (remove_file old dir) = filter (\<lambda>x. x \<noteq> old) (map fst dir)"
  by (induction dir) (auto simp add: remove_file_def)

lemma distinct_replace:
  assumes "distinct xs" and "new \<notin> set xs"
  shows "distinct (map (\<lambda>x. if x = old then new else x) xs)"
proof -
  have "inj_on (\<lambda>x. if x = old then new else x) (set xs)"
    using assms(2) by (auto simp add: inj_on_def)
  with assms(1) show ?thesis by (simp add: distinct_map)
qed

lemma distinct_rename_file:
  assumes "distinct (map fst dir)" and "new \<notin> set (map fst dir)"
  shows "distinct (map fst (rename_file old new dir))"
  unfolding names_rename_file using assms by (rule distinct_replace)

lemma set_rename_file:
  "old \<in> set (map fst dir) \<Longrightarrow>
     set (map fst (rename_file old new dir)) = insert new (set (map fst dir) - {old})"
  unfolding names_rename_file by auto

section \<open>File names in the manifest\<close>

lemma tracked_cong:
  "folder_names st' = folder_names st \<Longrightarrow> manifest_photos st' = manifest_photos st \<Longrightarrow>
     tracked P0 rest st' = tracked P0 rest st"
  by (simp add: tracked_def)

lemma tracked_tail: "tracked P0 (n # rest) st \<Longrightarrow> tracked P0 rest st"
  by (auto simp add: tracked_def)

lemma tracked_distinct: "tracked P0 rest st \<Longrightarrow> distinct (map e_filename (manifest_photos st))"
  by (auto simp add: tracked_def)

lemma process_named_Done:
  assumes "process_named r c k g i st = Done st'"
  shows "folder_names st' = folder_names st \<and>
    (manifest_photos st' = manifest_photos st \<or>
     (manifest_photos st' = new_entry c g i # manifest_photos st \<and> supported g
        \<and> \<not> known_test r g k))"
  using assms
  by (auto simp add: process_named_def folder_names_def manifest_photos_def say_def
      prepend_entry_def split: if_splits)

lemma process_named_Aborted:
  "process_named r c k g i st = Aborted st' \<Longrightarrow> manifest_photos st' = manifest_photos st"
  by (auto simp add: process_named_def manifest_photos_def say_def split: if_splits)

lemma tracked_named:
  assumes t: "tracked (photos m0) (g # rest) st" and nonl: "nl \<notin> set g"
    and hd: "\<not> starts_with g ''-''" and uncut: "uncut r (known_files m0)"
    and run: "process_named r c (known_files m0) g i st = Done st'"
  shows "tracked (photos m0) rest st'"
proof -
  from process_named_Done [OF run] known_test_uncut [OF uncut nonl]
  have names: "folder_names st' = folder_names st"
    and alt: "manifest_photos st' = manifest_photos st \<or>
     (manifest_photos st' = new_entry c g i # manifest_photos st \<and> supported g
        \<and> \<not> grep_qxF g (known_files m0))"
    by simp_all
  from alt show ?thesis
  proof
    assume "manifest_photos st' = manifest_photos st"
    with names t show ?thesis using tracked_cong tracked_tail by blast
  next
    assume add: "manifest_photos st' = new_entry c g i # manifest_photos st \<and> supported g
        \<and> \<not> grep_qxF g (known_files m0)"
    from t obtain A where A: "manifest_photos st = A @ photos m0"
      "set (map e_filename A) \<subseteq> set (folder_names st) - set (g # rest)"
      "distinct (map e_filename (A @ photos m0))"
      and d: "distinct (folder_names st)" "distinct (g # rest)"
        "set (g # rest) \<subseteq> set (folder_names st)"
      by (auto simp add: tracked_def)
    from add have "g \<noteq> []" using supported_nonempty by blast
    with add nonl hd have new: "g \<notin> set (map e_filename (photos m0))"
      using grep_sound [of g m0] by blast
    have fn: "e_filename (new_entry c g i) = g" by (simp add: new_entry_def)
    let ?A = "new_entry c g i # A"
    have 1: "manifest_photos st' = ?A @ photos m0" using add A(1) by simp
    have 2: "set (map e_filename ?A) \<subseteq> set (folder_names st') - set rest"
      using A(2) d names fn by auto
    have 3: "distinct (map e_filename (?A @ photos m0))"
      using A(2,3) new fn by auto
    from 1 2 3 d names show ?thesis
      unfolding tracked_def by (intro conjI exI [of _ ?A]) auto
  qed
qed

lemma tracked_rename:
  assumes t: "tracked P0 (n # rest) st" and fresh: "g \<notin> set (folder_names st)"
    and names: "folder_names st1 = map (\<lambda>x. if x = n then g else x) (folder_names st)"
    and same: "manifest_photos st1 = manifest_photos st"
  shows "tracked P0 (g # rest) st1"
proof -
  from t obtain A where A: "manifest_photos st = A @ P0"
    "set (map e_filename A) \<subseteq> set (folder_names st) - set (n # rest)"
    "distinct (map e_filename (A @ P0))"
    and d: "distinct (folder_names st)" "distinct (n # rest)"
      "set (n # rest) \<subseteq> set (folder_names st)"
    by (auto simp add: tracked_def)
  have 1: "distinct (folder_names st1)"
    unfolding names using d(1) fresh by (rule distinct_replace)
  have 2: "distinct (g # rest)" using d fresh by auto
  have s: "set (folder_names st1) = insert g (set (folder_names st) - {n})"
    unfolding names using d(3) by auto
  have 3: "set (g # rest) \<subseteq> set (folder_names st1)" using s d by auto
  have 4: "set (map e_filename A) \<subseteq> set (folder_names st1) - set (g # rest)"
    using A(2) s fresh by auto
  from 1 2 3 4 A same show ?thesis
    unfolding tracked_def by (intro conjI exI [of _ A]) auto
qed

lemma tracked_remove:
  assumes t: "tracked P0 (n # rest) st"
    and names: "folder_names st1 = filter (\<lambda>x. x \<noteq> n) (folder_names st)"
    and same: "manifest_photos st1 = manifest_photos st"
  shows "tracked P0 rest st1"
proof -
  from t obtain A where A: "manifest_photos st = A @ P0"
    "set (map e_filename A) \<subseteq> set (folder_names st) - set (n # rest)"
    "distinct (map e_filename (A @ P0))"
    and d: "distinct (folder_names st)" "distinct (n # rest)"
      "set (n # rest) \<subseteq> set (folder_names st)"
    by (auto simp add: tracked_def)
  have 1: "distinct (folder_names st1)" unfolding names using d(1) by simp
  have 3: "set rest \<subseteq> set (folder_names st1)" unfolding names using d by auto
  have 4: "set (map e_filename A) \<subseteq> set (folder_names st1) - set rest"
    unfolding names using A(2) by auto
  from 1 3 4 A same d show ?thesis
    unfolding tracked_def by (intro conjI exI [of _ A]) auto
qed

lemma say_set_originals:
  "folder_names (say ms (set_originals d st)) = map fst d
   \<and> manifest_photos (say ms (set_originals d st)) = manifest_photos st"
  by (simp add: folder_names_def manifest_photos_def say_def set_originals_def)

lemma tracked_step:
  assumes t: "tracked (photos m0) (n # rest) st" and p: "plain_name n"
    and uncut: "uncut r (known_files m0)"
    and run: "process_file r c (known_files m0) n st = Done st'"
  shows "tracked (photos m0) rest st'"
proof -
  let ?dir = "originals (files st)"
  from t have "n \<in> set (map fst ?dir)" by (simp add: tracked_def folder_names_def)
  then obtain info where info: "map_of ?dir n = Some info"
    by (metis domIff dom_map_of_conv_image_fst not_Some_eq set_map)
  from p have nonl: "nl \<notin> set n" and stem: "strip_last_ext (sanitize n) \<noteq> []"
    by (simp_all add: plain_name_def)
  show ?thesis
  proof (cases "starts_with n ''.''")
    case True
    with info run have "st' = st" by (simp add: process_file_def)
    with t show ?thesis using tracked_tail by blast
  next
    case visible: False
    show ?thesis
    proof (cases "sanitize n = n")
      case True
      with visible info run have r: "process_named r c (known_files m0) n info st = Done st'"
        by (simp add: process_file_def)
      from True nonl have h: "\<not> starts_with n ''-''" using sanitize_head [of n] by simp
      from t nonl h uncut r show ?thesis by (rule tracked_named)
    next
      case False
      let ?g = "rename_target ?dir (sanitize n)"
      have fresh: "?g \<notin> set (folder_names st)"
        using rename_target_fresh by (simp add: folder_names_def)
      have g_nonl: "nl \<notin> set ?g"
        using nonl sanitize_no_nl rename_target_no_nl by blast
      have g_hd: "\<not> starts_with ?g ''-''"
        using stem nonl sanitize_head rename_target_head by blast
      from stem have "sanitize n \<noteq> []" by (auto simp add: strip_last_ext_def)
      show ?thesis
      proof (cases "?g = [] \<or> ?g = ''.''")
        case True
        with False visible info run show ?thesis by (simp add: process_file_def Let_def)
      next
        case ok: False
        show ?thesis
        proof (cases "?g = ''..''")
          case True
          let ?st1 = "say [Renamed n ?g] (set_originals (remove_file n ?dir) st)"
          from True ok False visible info run
          have r: "process_named r c (known_files m0) ?g info ?st1 = Done st'"
            by (simp add: process_file_def Let_def)
          have n1: "folder_names ?st1 = filter (\<lambda>x. x \<noteq> n) (folder_names st)"
            using say_set_originals [of "[Renamed n ?g]" "remove_file n ?dir" st]
            by (simp add: names_remove_file folder_names_def)
          have m1: "manifest_photos ?st1 = manifest_photos st"
            using say_set_originals [of "[Renamed n ?g]" "remove_file n ?dir" st] by simp
          from t n1 m1 have "tracked (photos m0) rest ?st1" by (rule tracked_remove)
          moreover from process_named_Done [OF r] True not_supported_dotdot
          have "folder_names st' = folder_names ?st1 \<and> manifest_photos st' = manifest_photos ?st1"
            by auto
          ultimately show ?thesis using tracked_cong by blast
        next
          case False
          let ?st1 = "say [Renamed n ?g] (set_originals (rename_file n ?g ?dir) st)"
          from False ok \<open>sanitize n \<noteq> n\<close> visible info run
          have r: "process_named r c (known_files m0) ?g info ?st1 = Done st'"
            by (simp add: process_file_def Let_def)
          have n1: "folder_names ?st1 = map (\<lambda>x. if x = n then ?g else x) (folder_names st)"
            using say_set_originals [of "[Renamed n ?g]" "rename_file n ?g ?dir" st]
            by (simp add: names_rename_file folder_names_def)
          have m1: "manifest_photos ?st1 = manifest_photos st"
            using say_set_originals [of "[Renamed n ?g]" "rename_file n ?g ?dir" st] by simp
          from t fresh n1 m1 have "tracked (photos m0) (?g # rest) ?st1"
            by (rule tracked_rename)
          from this g_nonl g_hd uncut r show ?thesis by (rule tracked_named)
        qed
      qed
    qed
  qed
qed

lemma aborted_step:
  "process_file r c k n st = Aborted st' \<Longrightarrow> manifest_photos st' = manifest_photos st"
  using process_named_Aborted [of r c k _ _ st st']
    process_named_Aborted [of r c k _ _ "say ms (set_originals d st)" st' for ms d]
    say_set_originals [of _ _ st]
  by (auto simp add: process_file_def Let_def split: option.splits if_splits)

lemma tracked_loop:
  assumes "tracked (photos m0) ns st" and "\<forall>n\<in>set ns. plain_name n"
    and "uncut r (known_files m0)"
  shows "distinct (map e_filename (manifest_photos (final (for_each_file r c (known_files m0) ns st))))"
  using assms
proof (induction ns arbitrary: st)
  case Nil
  then show ?case using tracked_distinct by simp
next
  case (Cons n ns)
  show ?case
  proof (cases "process_file r c (known_files m0) n st")
    case (Aborted st')
    then have "manifest_photos st' = manifest_photos st" by (rule aborted_step)
    with Aborted Cons.prems(1) show ?thesis using tracked_distinct by simp
  next
    case (Done st')
    with Cons.prems have "tracked (photos m0) ns st'" using tracked_step by simp
    with Cons.IH Cons.prems(2,3) Done show ?thesis by simp
  qed
qed

lemma distinct_filenames_sorted:
  "distinct (map e_filename (sort_newest_first es)) = distinct (map e_filename es)"
proof -
  have "mset (map e_filename (sort_newest_first es)) = mset (map e_filename es)"
    by (simp add: mset_sort_newest_first)
  then show ?thesis by (rule mset_eq_imp_distinct_iff)
qed

lemma distinct_filenames_finish:
  "distinct (map e_filename (manifest_photos (finish st)))
     = distinct (map e_filename (manifest_photos st))"
  by (auto simp add: finish_def write_sitemap_def say_def sort_photos_def manifest_photos_def
      distinct_filenames_sorted split: option.splits)

text \<open>
  C4 (amended). A run of process-photos.sh in which no test for a known
  file is cut short keeps the file names of the manifest pairwise distinct:
  if no two entries share a file name before the run, none do after it,
  whether the run completes or is ended by a failing command. This is for a
  folder (a list of files with no name twice) whose visible names are ASCII,
  hold no newline and have a sanitized name with a non-empty stem.
\<close>

theorem filenames_stay_distinct:
  assumes "distinct (map fst (originals s))"
    and "\<forall>n\<in>set (glob_originals (originals s)). plain_name n"
    and "distinct (map e_filename (photos (json s)))"
    and "uncut r (known_files (json s))"
  shows "distinct (map e_filename (photos (json (files (final (process_photos r c s))))))"
proof -
  let ?r = "for_each_file r c (known_files (json s)) (glob_originals (originals s)) (start s)"
  have "tracked (photos (json s)) (glob_originals (originals s)) (start s)"
    unfolding tracked_def
  proof (intro conjI exI [of _ "[]"])
    show "distinct (folder_names (start s))"
      using assms(1) by (simp add: folder_names_def start_def)
    show "distinct (glob_originals (originals s))"
      using assms(1) by (simp add: glob_originals_def)
    show "set (glob_originals (originals s)) \<subseteq> set (folder_names (start s))"
      by (auto simp add: glob_originals_def folder_names_def start_def)
    show "manifest_photos (start s) = [] @ photos (json s)"
      by (simp add: manifest_photos_def start_def)
    show "set (map e_filename []) \<subseteq> set (folder_names (start s)) - set (glob_originals (originals s))"
      by simp
    show "distinct (map e_filename ([] @ photos (json s)))" using assms(3) by simp
  qed
  from this assms(2) assms(4) have d: "distinct (map e_filename (manifest_photos (final ?r)))"
    by (rule tracked_loop)
  show ?thesis
  proof (cases ?r)
    case (Aborted st')
    with d show ?thesis by (simp add: process_photos_def manifest_photos_def)
  next
    case (Done st')
    with d distinct_filenames_finish [of st'] show ?thesis
      by (simp add: process_photos_def manifest_photos_def)
  qed
qed

theorem filenames_stay_distinct_witness:
  "distinct (map fst (originals after_first_run))
   \<and> glob_originals (originals after_first_run) = [''a-1--1.jpg'', ''a-1-.jpg'']
   \<and> plain_name ''a-1--1.jpg'' \<and> plain_name ''a-1-.jpg''
   \<and> distinct (map e_filename (photos (json after_first_run)))
   \<and> length (photos (json after_first_run)) = 2
   \<and> uncut never (known_files (json after_first_run))
   \<and> distinct (map e_filename (photos (json (files (final (process_photos never [] after_first_run))))))"
proof -
  have h1: "distinct (map fst (originals after_first_run))" by code_simp
  have g: "glob_originals (originals after_first_run) = [''a-1--1.jpg'', ''a-1-.jpg'']"
    by code_simp
  have p: "plain_name ''a-1--1.jpg'' \<and> plain_name ''a-1-.jpg''" by code_simp
  from g p have h2: "\<forall>n\<in>set (glob_originals (originals after_first_run)). plain_name n"
    by simp
  have h3: "distinct (map e_filename (photos (json after_first_run)))" by code_simp
  have h4: "length (photos (json after_first_run)) = 2" by code_simp
  have h5: "uncut never (known_files (json after_first_run))" by code_simp
  from filenames_stay_distinct [OF h1 h2 h3 h5] h1 g p h3 h4 h5 show ?thesis by blast
qed

text \<open>
  C4 as stated fails for the Instagram import: it compares slugs (made of the
  time stamp of the post), not file names, and takes the file name from the
  last component of the first media path; two posts whose first media files
  have the same name in different folders give two entries with one file name.
\<close>

theorem import_duplicates_filename_counterexample:
  "map e_filename (photos (json (i_files (import_instagram this_mac two_posts (folder [])))))
     = [''photo.jpg'', ''photo.jpg'']
   \<and> map e_slug (photos (json (i_files (import_instagram this_mac two_posts (folder [])))))
     = [Some ''ig-200'', Some ''ig-100'']"
  by code_simp

text \<open>
  What the statement on file names sets aside. A file of the folder that
  needs no renaming and converts well is tracked: grep finds its name among
  the known files. When the list is written in full the file is passed over;
  when grep ends before echo has written the list, the test of line 137 fails
  and the file is added once more, with the file name that the manifest
  already holds.
\<close>

lemma cut_test_adds_tracked_file:
  assumes "map_of (originals (files st)) g = Some info" and "\<not> starts_with g ''.''"
    and "text_name g" and "sanitize g = g" and "supported g"
    and "fi_web_ok info" and "fi_thumbs_ok info" and "grep_qxF g known"
  shows "process_file race c known g st =
    (if pipe_cut race known g then
       Done (say [Processing g, Web_optimized (strip_last_ext g @ ''.webp''),
                  Thumbnails_done, Added_to_json]
              ((prepend_entry (new_entry c g info) st)\<lparr>new_count := new_count st + 1\<rparr>))
     else Done st)"
  using assms by (simp add: process_file_def process_named_def known_test_def)

text \<open>
  For instance, the manifest lists \<^verbatim>\<open>a.jpg\<close> and \<^verbatim>\<open>b.jpg\<close> and the folder
  holds both. A run whose tests are not cut adds nothing. In a run in which
  grep always wins the race, the test for \<^verbatim>\<open>a.jpg\<close> is cut (the line of
  \<^verbatim>\<open>b.jpg\<close> follows it) and \<^verbatim>\<open>a.jpg\<close> gets a second entry, while the test
  for \<^verbatim>\<open>b.jpg\<close>, the last line, cannot be cut.
\<close>

lemma cut_test_at_two_files:
  "distinct (map e_filename (photos (json tracked_pair)))
   \<and> new_count (final (process_photos never [] tracked_pair)) = 0
   \<and> files (final (process_photos never [] tracked_pair)) = tracked_pair
   \<and> new_count (final (process_photos always [] tracked_pair)) = 1
   \<and> map e_filename (photos (json (files (final (process_photos always [] tracked_pair)))))
       = [''b.jpg'', ''a.jpg'', ''a.jpg'']"
  by code_simp

section \<open>Slugs in the manifest\<close>






lemma claimed_slug_chars: "c \<in> set (claimed_slug filename) \<Longrightarrow> slug_char c"
proof -
  assume "c \<in> set (claimed_slug filename)"
  then have "c \<in> set (collapse (map (\<lambda>c. if slug_char c then c else hyphen)
       (map to_lower (strip_last_ext filename))))"
    by (auto simp add: claimed_slug_def strip_hyphens_def dest!: set_dropWhileD)
  then have "c \<in> set (map (\<lambda>c. if slug_char c then c else hyphen)
       (map to_lower (strip_last_ext filename)))"
    using set_collapse by blast
  then show ?thesis by (auto simp add: slug_char_def)
qed



















section \<open>Running the script again\<close>

text \<open>
  A run over a folder in which every visible name is settled completes and
  changes neither the folder nor the manifest nor the sitemap, and
  \<^verbatim>\<open>new_count\<close> stays 0.
\<close>

lemma settled_step:
  assumes "settled r known n"
  shows "\<exists>st'. process_file r c known n st = Done st' \<and> files st' = files st
    \<and> new_count st' = new_count st"
proof (cases "map_of (originals (files st)) n")
  case None
  then show ?thesis by (simp add: process_file_def)
next
  case (Some info)
  with assms have "process_file r c known n st =
      (if starts_with n ''.'' then Done st else process_named r c known n info st)"
    by (simp add: process_file_def Let_def settled_def)
  with assms show ?thesis
    by (auto simp add: process_named_def settled_def say_def)
qed

lemma settled_loop:
  assumes "\<forall>n\<in>set ns. settled r known n"
  shows "\<exists>st'. for_each_file r c known ns st = Done st' \<and> files st' = files st
    \<and> new_count st' = new_count st"
  using assms
proof (induction ns arbitrary: st)
  case Nil
  then show ?case by simp
next
  case (Cons n ns)
  then obtain st1 where 1: "process_file r c known n st = Done st1" "files st1 = files st"
    "new_count st1 = new_count st"
    using settled_step [of r known n c st] by auto
  from Cons obtain st2 where 2: "for_each_file r c known ns st1 = Done st2" "files st2 = files st1"
    "new_count st2 = new_count st1"
    by (metis list.set_intros(2))
  from 1 2 show ?case by simp
qed

lemma settled_folder_unchanged:
  assumes "\<forall>n\<in>set (glob_originals (originals s)). settled r (known_files (json s)) n"
  shows "completed (process_photos r c s) \<and> files (final (process_photos r c s)) = s
    \<and> new_count (final (process_photos r c s)) = 0"
proof -
  obtain st' where 1: "for_each_file r c (known_files (json s)) (glob_originals (originals s)) (start s)
      = Done st'" "files st' = files (start s)" "new_count st' = new_count (start s)"
    using settled_loop [OF assms] by blast
  then have "new_count st' = 0" and "files st' = s" by (simp_all add: start_def)
  with 1(1) show ?thesis
    by (simp add: process_photos_def completed_def finish_def say_def)
qed

text \<open>
  C1 at a concrete folder. A fresh download \<^verbatim>\<open>a (1).jpg\<close> lies next to
  \<^verbatim>\<open>a-1-.jpg\<close>. The first run moves it to \<^verbatim>\<open>a-1--1.jpg\<close>, since its
  sanitized name is taken, and completes with two entries. The second run over
  the folder as the first run left it sanitizes \<^verbatim>\<open>a-1--1.jpg\<close> to
  \<^verbatim>\<open>a-1-1.jpg\<close>, moves the file, does not find the new name among the known
  file names and adds a third entry: \<^verbatim>\<open>new_count\<close> is 1. In neither run is
  a name that is looked for followed by another line in the list of known
  files, so this is what both runs do however the race of the test ends.
\<close>

theorem rerun_adds_an_entry:
  "completed (process_photos race [] two_downloads)
   \<and> files (final (process_photos race [] two_downloads)) = after_first_run
   \<and> map fst (originals after_first_run) = [''a-1--1.jpg'', ''a-1-.jpg'']
   \<and> map e_filename (photos (json after_first_run)) = [''a-1--1.jpg'', ''a-1-.jpg'']
   \<and> completed (process_photos race [] after_first_run)
   \<and> new_count (final (process_photos race [] after_first_run)) = 1
   \<and> map e_filename (photos (json (files (final (process_photos race [] after_first_run)))))
       = [''a-1-.jpg'', ''a-1--1.jpg'', ''a-1-1.jpg'']"
  by code_simp

section \<open>Files that cannot be handled\<close>





end
